theory Spec2Isabelle
  imports Main "HOL-Library.Word" "HOL-Library.Sublist"
begin

unbundle bit_operations_syntax

text \<open>
  A model of the memcomparable byte codec of \<^verbatim>\<open>util/codec/bytes.go\<close>: the group
  encoding in ascending and descending order with its decoder, the compact decoder,
  the two paths that complement a byte range, and the buffer growth helper.
\<close>

section \<open>Bytes, slices and the target platform\<close>

type_synonym byte = "8 word"

text \<open>
  The constants of \<^verbatim>\<open>util/codec/bytes.go\<close>: a group holds eight payload bytes, the
  marker of a full group is \<open>0xFF\<close> and the padding byte is zero.
\<close>

definition encGroupSize :: nat where
  "encGroupSize = 8"

definition encMarker :: byte where
  "encMarker = 0xFF"

definition encPad :: byte where
  "encPad = 0x0"

text \<open>
  \<^verbatim>\<open>wordSize\<close> and \<^verbatim>\<open>supportsUnaligned\<close> are compile-time constants fixed by the
  target: the name of the architecture, the width of \<^verbatim>\<open>uintptr\<close> (four or eight
  bytes) and the byte order in which a word is read from memory.
\<close>

record platform =
  GOARCH :: string
  ptr64 :: bool
  bigEndian :: bool

definition wordSize :: "platform \<Rightarrow> nat" where
  "wordSize p = (if ptr64 p then 8 else 4)"

definition supportsUnaligned :: "platform \<Rightarrow> bool" where
  "supportsUnaligned p = (GOARCH p = ''386'' \<or> GOARCH p = ''amd64'')"

text \<open>
  A byte slice as the encoder sees it: the bytes below its length and its capacity.
  \<^verbatim>\<open>append\<close> keeps the capacity when the new bytes fit; otherwise the runtime moves
  the slice to a larger array, whose capacity is only known to be sufficient, and the
  model records the least capacity it can have.
\<close>

record go_slice =
  elems :: "byte list"
  cap :: nat

definition nil_slice :: go_slice where
  "nil_slice = \<lparr>elems = [], cap = 0\<rparr>"

definition append_go :: "go_slice \<Rightarrow> byte list \<Rightarrow> go_slice" where
  "append_go s xs = \<lparr>elems = elems s @ xs, cap = max (cap s) (length (elems s) + length xs)\<rparr>"

section \<open>Complementing a byte range\<close>

text \<open>
  The complement functions write through the slice they are given. Memory is the
  list \<open>mem\<close> of the bytes of the underlying array, and the slice is the range of
  \<open>n\<close> bytes starting at index \<open>off\<close>; the function returns the memory after the call.
\<close>

text \<open>Reading and writing a machine word of \<open>k\<close> bytes, least significant byte first.\<close>

primrec load_le :: "byte list \<Rightarrow> 'a::len word" where
  "load_le [] = 0"
| "load_le (b # bs) = ucast b OR push_bit 8 (load_le bs)"

primrec store_le :: "nat \<Rightarrow> 'a::len word \<Rightarrow> byte list" where
  "store_le 0 w = []"
| "store_le (Suc k) w = ucast w # store_le k (drop_bit 8 w)"

definition load_word :: "platform \<Rightarrow> byte list \<Rightarrow> 'a::len word" where
  "load_word p bs = (if bigEndian p then load_le (rev bs) else load_le bs)"

definition store_word :: "platform \<Rightarrow> nat \<Rightarrow> 'a::len word \<Rightarrow> byte list" where
  "store_word p k w = (if bigEndian p then rev (store_le k w) else store_le k w)"

text \<open>\<^verbatim>\<open>bw[i] = ^bw[i]\<close> for the \<^verbatim>\<open>uintptr\<close> that starts at byte \<open>a\<close> of the memory.\<close>

definition complement_word32 :: "platform \<Rightarrow> byte list \<Rightarrow> nat \<Rightarrow> byte list" where
  "complement_word32 p mem a =
     take a mem @ store_word p 4 (NOT (load_word p (take 4 (drop a mem)) :: 32 word)) @ drop (a + 4) mem"

definition complement_word64 :: "platform \<Rightarrow> byte list \<Rightarrow> nat \<Rightarrow> byte list" where
  "complement_word64 p mem a =
     take a mem @ store_word p 8 (NOT (load_word p (take 8 (drop a mem)) :: 64 word)) @ drop (a + 8) mem"

definition complement_uintptr :: "platform \<Rightarrow> byte list \<Rightarrow> nat \<Rightarrow> byte list" where
  "complement_uintptr p mem a =
     (if ptr64 p then complement_word64 p mem a else complement_word32 p mem a)"

text \<open>\<^verbatim>\<open>b[i] = ^b[i]\<close> for the byte at index \<open>i\<close> of the slice.\<close>

definition complement_byte :: "nat \<Rightarrow> byte list \<Rightarrow> nat \<Rightarrow> byte list" where
  "complement_byte off mem i = mem[off + i := NOT (mem ! (off + i))]"

definition fastReverseBytes :: "platform \<Rightarrow> byte list \<Rightarrow> nat \<Rightarrow> nat \<Rightarrow> byte list" where
  "fastReverseBytes p mem off n =
     (let w = n div wordSize p;
          mem1 = (if w > 0
                  then foldl (\<lambda>m i. complement_uintptr p m (off + i * wordSize p)) mem [0..<w]
                  else mem)
      in foldl (complement_byte off) mem1 [w * wordSize p..<n])"

definition safeReverseBytes :: "byte list \<Rightarrow> nat \<Rightarrow> nat \<Rightarrow> byte list" where
  "safeReverseBytes mem off n = foldl (complement_byte off) mem [0..<n]"

definition reverseBytes :: "platform \<Rightarrow> byte list \<Rightarrow> nat \<Rightarrow> nat \<Rightarrow> byte list" where
  "reverseBytes p mem off n =
     (if supportsUnaligned p then fastReverseBytes p mem off n else safeReverseBytes mem off n)"

text \<open>What both paths are meant to compute: the range complemented, the rest kept.\<close>

definition complement_range :: "byte list \<Rightarrow> nat \<Rightarrow> nat \<Rightarrow> byte list" where
  "complement_range mem off n = take off mem @ map NOT (take n (drop off mem)) @ drop (off + n) mem"

section \<open>Buffer growth\<close>

text \<open>
  \<^verbatim>\<open>reallocBytes(b, n)\<close>: when the capacity of \<open>b\<close> is below \<open>n\<close>, a new array of capacity
  \<open>len(b) + n\<close> receives a copy of \<open>b\<close>; otherwise \<open>b\<close> itself is returned.
\<close>

definition reallocBytes :: "go_slice \<Rightarrow> int \<Rightarrow> go_slice" where
  "reallocBytes b n =
     (if int (cap b) < n
      then \<lparr>elems = elems b, cap = nat (int (length (elems b)) + n)\<rparr>
      else b)"

section \<open>Ascending and descending group encoding\<close>

text \<open>
  The loop of \<^verbatim>\<open>EncodeBytes\<close>, \<^verbatim>\<open>for idx := 0; idx <= dLen; idx += encGroupSize\<close>, with the
  buffer being built and the index as its state.
\<close>

function EncodeBytes_loop :: "go_slice \<Rightarrow> byte list \<Rightarrow> nat \<Rightarrow> go_slice" where
  "EncodeBytes_loop result data idx =
     (let dLen = length data in
      if idx \<le> dLen then
        let remain = dLen - idx in
        if remain \<ge> encGroupSize then
          let result1 = append_go result (take encGroupSize (drop idx data));
              marker = encMarker - of_nat 0
          in EncodeBytes_loop (append_go result1 [marker]) data (idx + encGroupSize)
        else
          let padCount = encGroupSize - remain;
              result1 = append_go result (drop idx data);
              result2 = append_go result1 (replicate padCount 0);
              marker = encMarker - of_nat padCount
          in EncodeBytes_loop (append_go result2 [marker]) data (idx + encGroupSize)
      else result)"
  by pat_completeness auto
termination
  by (relation "measure (\<lambda>(result, data, idx). Suc (length data) - idx)")
    (auto simp: encGroupSize_def)

declare EncodeBytes_loop.simps [simp del]

definition EncodeBytes :: "go_slice \<Rightarrow> byte list \<Rightarrow> go_slice" where
  "EncodeBytes b data =
     (let dLen = length data;
          reallocSize = (dLen div encGroupSize + 1) * (encGroupSize + 1);
          result = reallocBytes b (int reallocSize)
      in EncodeBytes_loop result data 0)"

text \<open>
  \<^verbatim>\<open>EncodeBytesDesc\<close> complements \<^verbatim>\<open>b[n:]\<close> in place: the bytes of the encoded
  buffer are the memory, the range starts at the old length.
\<close>

definition EncodeBytesDesc :: "platform \<Rightarrow> go_slice \<Rightarrow> byte list \<Rightarrow> go_slice" where
  "EncodeBytesDesc p b data =
     (let n = length (elems b);
          b1 = EncodeBytes b data
      in b1\<lparr>elems := reverseBytes p (elems b1) n (length (elems b1) - n)\<rparr>)"

text \<open>
  The encoding as a function of the payload alone, byte by byte: \<open>k\<close> counts the
  payload bytes already written to the current group.
\<close>

fun enc_from :: "nat \<Rightarrow> byte list \<Rightarrow> byte list" where
  "enc_from k [] = replicate (encGroupSize - k) 0 @ [encMarker - of_nat (encGroupSize - k)]"
| "enc_from k (x # xs) =
     (if Suc k = encGroupSize then x # encMarker # enc_from 0 xs else x # enc_from (Suc k) xs)"

definition enc :: "byte list \<Rightarrow> byte list" where
  "enc d = enc_from 0 d"

section \<open>Group decoding\<close>

text \<open>
  The decoder reads, and in descending mode writes, the caller's buffer. Its slice
  argument is a header: the index \<open>ptr\<close> of its first byte in the memory and its length.
  \<^verbatim>\<open>b = b[encGroupSize+1:]\<close> moves the header; \<^verbatim>\<open>reverseBytes(groupBytes)\<close> changes
  the memory. The decoder returns the memory as it leaves it, and either the error
  or the header of the remainder with the decoded bytes.
\<close>

record span =
  ptr :: nat
  len :: nat

definition whole :: "byte list \<Rightarrow> span" where
  "whole buf = \<lparr>ptr = 0, len = length buf\<rparr>"

definition view :: "byte list \<Rightarrow> span \<Rightarrow> byte list" where
  "view mem s = take (len s) (drop (ptr s) mem)"

definition valid_span :: "byte list \<Rightarrow> span \<Rightarrow> bool" where
  "valid_span mem b \<longleftrightarrow> ptr b + len b \<le> length mem"

text \<open>
  The errors of the package, by message: too few bytes for a group, a marker that is
  no pad count, padding that is not zero (both with the group quoted), a compact
  length beyond the buffer, the two failures of the varint decoder, and an error
  passed on by \<^verbatim>\<open>errors.Trace\<close>.
\<close>

datatype error =
    InsufficientBytes
  | InvalidMarker "byte list"
  | InvalidPadding "byte list"
  | InsufficientCompact "64 word"
  | VarintOverflow
  | VarintInsufficient
  | Trace error

function decodeBytes_loop ::
  "platform \<Rightarrow> bool \<Rightarrow> byte list \<Rightarrow> span \<Rightarrow> byte list \<Rightarrow> byte list \<times> (error + span \<times> byte list)" where
  "decodeBytes_loop p reverse mem b data =
     (if len b < encGroupSize + 1 then (mem, Inl InsufficientBytes)
      else
        let mem1 = (if reverse then reverseBytes p mem (ptr b) (encGroupSize + 1) else mem);
            groupBytes = take (encGroupSize + 1) (drop (ptr b) mem1);
            group = take encGroupSize groupBytes;
            marker = groupBytes ! encGroupSize;
            padCount = encMarker - marker;
            realGroupSize = of_nat encGroupSize - padCount
        in if padCount > of_nat encGroupSize then (mem1, Inl (InvalidMarker groupBytes))
           else
             let data1 = data @ take (unat realGroupSize) group;
                 b1 = \<lparr>ptr = ptr b + (encGroupSize + 1), len = len b - (encGroupSize + 1)\<rparr>
             in if marker \<noteq> encMarker then
                  (if int (count_list (drop (unat realGroupSize) group) encPad) \<noteq> uint padCount
                   then (mem1, Inl (InvalidPadding groupBytes))
                   else (mem1, Inr (b1, data1)))
                else decodeBytes_loop p reverse mem1 b1 data1)"
  by pat_completeness auto
termination
  by (relation "measure (\<lambda>(p, reverse, mem, b, data). len b)") (auto simp: encGroupSize_def)

declare decodeBytes_loop.simps [simp del]

definition decodeBytes ::
  "platform \<Rightarrow> byte list \<Rightarrow> span \<Rightarrow> bool \<Rightarrow> byte list \<times> (error + span \<times> byte list)" where
  "decodeBytes p mem b reverse = decodeBytes_loop p reverse mem b []"

definition DecodeBytes :: "platform \<Rightarrow> byte list \<Rightarrow> span \<Rightarrow> byte list \<times> (error + span \<times> byte list)" where
  "DecodeBytes p mem b = decodeBytes p mem b False"

definition DecodeBytesDesc :: "platform \<Rightarrow> byte list \<Rightarrow> span \<Rightarrow> byte list \<times> (error + span \<times> byte list)" where
  "DecodeBytesDesc p mem b = decodeBytes p mem b True"

text \<open>
  The number of groups the descending decoder reads from a buffer: it complements a
  group whenever nine bytes are left, and goes on to the next group when the
  complemented marker is \<open>0xFF\<close>.
\<close>

function desc_groups_read :: "byte list \<Rightarrow> nat" where
  "desc_groups_read v =
     (if length v < encGroupSize + 1 then 0
      else if NOT (v ! encGroupSize) = encMarker
           then Suc (desc_groups_read (drop (encGroupSize + 1) v))
           else 1)"
  by pat_completeness auto
termination
  by (relation "measure length") (auto simp: encGroupSize_def)

declare desc_groups_read.simps [simp del]

section \<open>Bytewise comparison\<close>

text \<open>The three-way lexicographic comparison of byte strings, bytes compared unsigned.\<close>

fun compareBytes :: "byte list \<Rightarrow> byte list \<Rightarrow> int" where
  "compareBytes [] [] = 0"
| "compareBytes [] (y # ys) = - 1"
| "compareBytes (x # xs) [] = 1"
| "compareBytes (x # xs) (y # ys) =
     (if x < y then - 1 else if y < x then 1 else compareBytes xs ys)"

section \<open>Compact encoding\<close>

text \<open>
  A call either returns or panics. \<^verbatim>\<open>DecodeCompactBytes\<close> takes the varint decoder
  it calls as an argument: \<open>decodeVarint b\<close> is the error, or the bytes after the
  varint and its value as an \<^verbatim>\<open>int64\<close>. After the length check \<^verbatim>\<open>make([]byte, int(n))\<close>
  panics for a negative \<open>n\<close>.
\<close>

datatype 'a outcome = Panic | Return 'a

definition DecodeCompactBytes ::
  "(byte list \<Rightarrow> error + byte list \<times> 64 word) \<Rightarrow> byte list \<Rightarrow> (error + byte list \<times> byte list) outcome" where
  "DecodeCompactBytes decodeVarint b =
     (case decodeVarint b of
        Inl err \<Rightarrow> Return (Inl (Trace err))
      | Inr (b1, n) \<Rightarrow>
          if int (length b1) < sint n then Return (Inl (InsufficientCompact n))
          else if sint n < 0 then Panic
          else Return (Inr (drop (nat (sint n)) b1, take (nat (sint n)) b1)))"

text \<open>
  Modelled from the spec: \<^verbatim>\<open>DecodeVarint\<close> belongs to the package but is not among
  the sources at hand. The spec has it decode a 64-bit signed integer from a prefix
  of the buffer and return the bytes after it; the model follows the signed varint
  of Go's \<^verbatim>\<open>encoding/binary\<close>. The loop reads the unsigned value, seven bits per
  byte, least significant group first, and returns it with the number of bytes read
  (zero when the buffer ends early, negative on overflow).
\<close>

fun Uvarint_loop :: "byte list \<Rightarrow> nat \<Rightarrow> nat \<Rightarrow> 64 word \<Rightarrow> 64 word \<times> int" where
  "Uvarint_loop [] i s x = (0, 0)"
| "Uvarint_loop (b # bs) i s x =
     (if b < 0x80 then
        (if i > 9 \<or> i = 9 \<and> b > 1 then (0, - (int i + 1))
         else (x OR push_bit s (ucast b), int i + 1))
      else Uvarint_loop bs (i + 1) (s + 7) (x OR push_bit s (ucast (b AND 0x7f))))"

text \<open>
  Modelled from the spec: the signed value, with the sign folded into the lowest bit
  of the unsigned one.
\<close>

definition Varint :: "byte list \<Rightarrow> 64 word \<times> int" where
  "Varint buf =
     (let (ux, n) = Uvarint_loop buf 0 0 0;
          x = drop_bit 1 ux
      in (if ux AND 1 \<noteq> 0 then NOT x else x, n))"

text \<open>
  Modelled from the spec: the decoder as \<^verbatim>\<open>DecodeCompactBytes\<close> calls it, returning the
  bytes after the varint and its value, or an error.
\<close>

definition DecodeVarint :: "byte list \<Rightarrow> error + byte list \<times> 64 word" where
  "DecodeVarint b =
     (let (v, n) = Varint b
      in if n > 0 then Inr (drop (nat n) b, v)
         else if n < 0 then Inl VarintOverflow
         else Inl VarintInsufficient)"

section \<open>Properties of the complement paths\<close>

lemma bit_load_le:
  "bit (load_le bs :: 'a::len word) n \<longleftrightarrow>
     n < LENGTH('a) \<and> n div 8 < length bs \<and> bit (bs ! (n div 8)) (n mod 8)"
proof (induction bs arbitrary: n)
  case Nil
  then show ?case by simp
next
  case (Cons b bs)
  show ?case
  proof (cases "n < 8")
    case True
    then show ?thesis
      by (auto simp: bit_or_iff bit_ucast_iff bit_push_bit_iff dest: bit_imp_le_length)
  next
    case False
    then have "n div 8 = Suc ((n - 8) div 8)" "n mod 8 = (n - 8) mod 8"
      by (simp_all add: le_div_geq le_mod_geq)
    with False show ?thesis
      by (auto simp: bit_or_iff bit_ucast_iff bit_push_bit_iff Cons.IH dest: bit_imp_le_length)
  qed
qed

lemma length_store_le [simp]: "length (store_le k w) = k"
  by (induction k arbitrary: w) simp_all

lemma nth_store_le: "i < k \<Longrightarrow> store_le k w ! i = ucast (drop_bit (8 * i) w)"
proof (induction k arbitrary: w i)
  case 0
  then show ?case by simp
next
  case (Suc k)
  then show ?case
    by (cases i) (simp_all add: ac_simps)
qed

lemma store_le_not_load_le:
  assumes "length bs = k" and "8 * k \<le> LENGTH('a::len)"
  shows "store_le k (NOT (load_le bs :: 'a word)) = map NOT bs"
proof (rule nth_equalityI)
  show "length (store_le k (NOT (load_le bs :: 'a word))) = length (map NOT bs)"
    using assms by simp
next
  fix i
  assume "i < length (store_le k (NOT (load_le bs :: 'a word)))"
  then have i: "i < k" by simp
  have "(ucast (drop_bit (8 * i) (NOT (load_le bs :: 'a word))) :: byte) = NOT (bs ! i)"
  proof (rule bit_eqI)
    fix n
    assume "possible_bit TYPE(byte) n"
    then have n: "n < 8" by simp
    with i assms have "8 * i + n < LENGTH('a)" by simp
    moreover from n have "(8 * i + n) div 8 = i" "(8 * i + n) mod 8 = n" by simp_all
    ultimately show "bit (ucast (drop_bit (8 * i) (NOT (load_le bs :: 'a word))) :: byte) n
        \<longleftrightarrow> bit (NOT (bs ! i)) n"
      using n i assms
      by (simp add: bit_ucast_iff bit_drop_bit_eq bit_not_iff bit_load_le)
  qed
  with i assms show "store_le k (NOT (load_le bs :: 'a word)) ! i = map NOT bs ! i"
    by (simp add: nth_store_le)
qed

lemma store_word_not_load_word:
  assumes "length bs = k" and "8 * k \<le> LENGTH('a::len)"
  shows "store_word p k (NOT (load_word p bs :: 'a word)) = map NOT bs"
  using store_le_not_load_le [of bs k, where 'a='a] store_le_not_load_le [of "rev bs" k, where 'a='a] assms
  by (simp add: store_word_def load_word_def rev_map)

lemma length_complement_range [simp]: "length (complement_range mem off n) = length mem"
  by (simp add: complement_range_def)

lemma complement_range_0 [simp]: "complement_range mem off 0 = mem"
  by (simp add: complement_range_def)

lemma nth_complement_range:
  "i < length mem \<Longrightarrow>
   complement_range mem off n ! i = (if off \<le> i \<and> i < off + n then NOT (mem ! i) else mem ! i)"
  by (auto simp: complement_range_def nth_append min_def)

lemma complement_range_add:
  "complement_range (complement_range mem off k) (off + k) j = complement_range mem off (k + j)"
  by (rule nth_equalityI) (auto simp: nth_complement_range)

lemma complement_byte_range:
  "off + i < length mem \<Longrightarrow> complement_byte off mem i = complement_range mem (off + i) 1"
  by (rule nth_equalityI) (auto simp: complement_byte_def nth_complement_range nth_list_update)

lemma complement_word32_range:
  "a + 4 \<le> length mem \<Longrightarrow> complement_word32 p mem a = complement_range mem a 4"
  by (simp add: complement_word32_def complement_range_def store_word_not_load_word)

lemma complement_word64_range:
  "a + 8 \<le> length mem \<Longrightarrow> complement_word64 p mem a = complement_range mem a 8"
  by (simp add: complement_word64_def complement_range_def store_word_not_load_word)

lemma complement_uintptr_range:
  "a + wordSize p \<le> length mem \<Longrightarrow> complement_uintptr p mem a = complement_range mem a (wordSize p)"
  by (cases "ptr64 p")
    (simp_all add: complement_uintptr_def wordSize_def complement_word32_range complement_word64_range)

lemma foldl_complement_byte:
  "a \<le> b \<Longrightarrow> off + b \<le> length mem \<Longrightarrow>
   foldl (complement_byte off) mem [a..<b] = complement_range mem (off + a) (b - a)"
proof (induction b)
  case 0
  then show ?case by simp
next
  case (Suc b)
  show ?case
  proof (cases "a = Suc b")
    case True
    then show ?thesis by simp
  next
    case False
    with Suc.prems have ab: "a \<le> b" and len: "off + b < length mem" by simp_all
    then have "foldl (complement_byte off) mem [a..<Suc b]
        = complement_byte off (complement_range mem (off + a) (b - a)) b"
      using Suc.IH by simp
    also have "\<dots> = complement_range (complement_range mem (off + a) (b - a)) (off + a + (b - a)) 1"
      using ab len by (simp add: complement_byte_range)
    also have "\<dots> = complement_range mem (off + a) (Suc b - a)"
      using ab by (simp only: complement_range_add) (simp add: Suc_diff_le)
    finally show ?thesis .
  qed
qed

lemma foldl_complement_uintptr:
  "off + w * wordSize p \<le> length mem \<Longrightarrow>
   foldl (\<lambda>m i. complement_uintptr p m (off + i * wordSize p)) mem [0..<w]
     = complement_range mem off (w * wordSize p)"
proof (induction w)
  case 0
  then show ?case by simp
next
  case (Suc w)
  then have "foldl (\<lambda>m i. complement_uintptr p m (off + i * wordSize p)) mem [0..<Suc w]
      = complement_uintptr p (complement_range mem off (w * wordSize p)) (off + w * wordSize p)"
    by simp
  also have "\<dots> = complement_range (complement_range mem off (w * wordSize p)) (off + w * wordSize p) (wordSize p)"
    using Suc.prems by (simp add: complement_uintptr_range)
  also have "\<dots> = complement_range mem off (Suc w * wordSize p)"
    by (simp only: complement_range_add) (simp add: ac_simps)
  finally show ?case .
qed

lemma safeReverseBytes_range:
  "off + n \<le> length mem \<Longrightarrow> safeReverseBytes mem off n = complement_range mem off n"
  using foldl_complement_byte [of 0 n off mem] by (simp add: safeReverseBytes_def)

lemma fastReverseBytes_range:
  assumes "off + n \<le> length mem"
  shows "fastReverseBytes p mem off n = complement_range mem off n"
proof -
  define w where "w = n div wordSize p"
  have le: "w * wordSize p \<le> n"
    by (simp add: w_def)
  then have len: "off + w * wordSize p \<le> length mem"
    using assms by simp
  have "fastReverseBytes p mem off n
      = foldl (complement_byte off) (complement_range mem off (w * wordSize p)) [w * wordSize p..<n]"
    using len by (simp add: fastReverseBytes_def Let_def w_def [symmetric] foldl_complement_uintptr)
  also have "\<dots> = complement_range (complement_range mem off (w * wordSize p)) (off + w * wordSize p) (n - w * wordSize p)"
    using le assms by (simp add: foldl_complement_byte)
  also have "\<dots> = complement_range mem off n"
    using le by (simp only: complement_range_add) simp
  finally show ?thesis .
qed

lemma reverseBytes_range:
  "off + n \<le> length mem \<Longrightarrow> reverseBytes p mem off n = complement_range mem off n"
  by (simp add: reverseBytes_def fastReverseBytes_range safeReverseBytes_range)

section \<open>Properties of the encoder\<close>

lemma enc_from_short:
  "k + length xs < 8 \<Longrightarrow>
   enc_from k xs = xs @ replicate (8 - (k + length xs)) 0 @ [encMarker - of_nat (8 - (k + length xs))]"
  by (induction xs arbitrary: k) (simp_all add: encGroupSize_def)

lemma enc_from_full:
  "k + length xs = 8 \<Longrightarrow> xs \<noteq> [] \<Longrightarrow> enc_from k (xs @ ys) = xs @ encMarker # enc_from 0 ys"
proof (induction xs arbitrary: k)
  case Nil
  then show ?case by simp
next
  case (Cons x xs)
  show ?case
  proof (cases "xs = []")
    case True
    with Cons.prems show ?thesis by (simp add: encGroupSize_def)
  next
    case False
    from Cons.prems have "Suc k + length xs = 8" by simp
    moreover from False have "0 < length xs" by simp
    with Cons.prems have "k \<noteq> 7" by auto
    ultimately show ?thesis
      using Cons.IH [of "Suc k"] False by (simp add: encGroupSize_def)
  qed
qed

lemma enc_short:
  "length d < 8 \<Longrightarrow> enc d = d @ replicate (8 - length d) 0 @ [encMarker - of_nat (8 - length d)]"
  using enc_from_short [of 0 d] by (simp add: enc_def)

lemma enc_full:
  assumes "8 \<le> length d"
  shows "enc d = take 8 d @ encMarker # enc (drop 8 d)"
proof -
  from assms have "0 + length (take 8 d) = 8" and "take 8 d \<noteq> []" by auto
  from enc_from_full [OF this, of "drop 8 d"] show ?thesis
    by (simp add: enc_def)
qed

lemma elems_append_go [simp]: "elems (append_go s xs) = elems s @ xs"
  by (simp add: append_go_def)

lemma EncodeBytes_loop_done:
  "length data < idx \<Longrightarrow> EncodeBytes_loop result data idx = result"
  by (subst EncodeBytes_loop.simps) simp

lemma elems_EncodeBytes_loop:
  "idx \<le> length data \<Longrightarrow> elems (EncodeBytes_loop result data idx) = elems result @ enc (drop idx data)"
proof (induction result data idx rule: EncodeBytes_loop.induct)
  case (1 result data idx)
  show ?case
  proof (cases "encGroupSize \<le> length data - idx")
    case True
    then have le: "idx + encGroupSize \<le> length data" using "1.prems" by simp
    have "elems (EncodeBytes_loop result data idx)
        = elems (EncodeBytes_loop (append_go (append_go result (take encGroupSize (drop idx data))) [encMarker - of_nat 0])
            data (idx + encGroupSize))"
      using True "1.prems" by (subst EncodeBytes_loop.simps) (simp add: Let_def)
    also have "\<dots> = (elems result @ take encGroupSize (drop idx data) @ [encMarker]) @ enc (drop (idx + encGroupSize) data)"
      using "1.IH"(1) [OF refl "1.prems" refl True refl refl le] by simp
    also have "\<dots> = elems result @ enc (drop idx data)"
      using True by (simp add: enc_full [of "drop idx data"] encGroupSize_def add.commute)
    finally show ?thesis .
  next
    case False
    then have short: "length (drop idx data) < 8" by (simp add: encGroupSize_def)
    have "elems (EncodeBytes_loop result data idx)
        = elems (EncodeBytes_loop
            (append_go (append_go (append_go result (drop idx data))
               (replicate (encGroupSize - (length data - idx)) 0))
               [encMarker - of_nat (encGroupSize - (length data - idx))])
            data (idx + encGroupSize))"
      using False "1.prems" by (subst EncodeBytes_loop.simps) (simp add: Let_def)
    also have "\<dots> = elems result @ drop idx data @ replicate (encGroupSize - (length data - idx)) 0
          @ [encMarker - of_nat (encGroupSize - (length data - idx))]"
    proof -
      from False "1.prems" have "length data < idx + encGroupSize" by simp
      then show ?thesis by (simp add: EncodeBytes_loop_done)
    qed
    also have "\<dots> = elems result @ enc (drop idx data)"
      using short by (simp add: enc_short encGroupSize_def)
    finally show ?thesis .
  qed
qed

lemma elems_reallocBytes [simp]: "elems (reallocBytes b n) = elems b"
  by (simp add: reallocBytes_def)

lemma elems_EncodeBytes: "elems (EncodeBytes b data) = elems b @ enc data"
  by (simp add: EncodeBytes_def Let_def elems_EncodeBytes_loop)

lemma elems_EncodeBytesDesc: "elems (EncodeBytesDesc p b data) = elems b @ map NOT (enc data)"
  by (simp add: EncodeBytesDesc_def Let_def elems_EncodeBytes reverseBytes_range complement_range_def)

section \<open>Properties of the comparison\<close>

lemma unat_byte_less: "unat x < 256" for x :: byte
  using unsigned_less [of x, where 'a = nat] by simp

lemma byte_le_255: "x \<le> 255" for x :: byte
  using unat_byte_less [of x] by (simp add: word_le_nat_alt)

lemma unat_not_byte: "unat (NOT x) = 255 - unat x" for x :: byte
proof -
  have "NOT x = 255 - x" by (simp add: not_eq_complement)
  then show ?thesis by (simp add: unat_sub byte_le_255)
qed

lemma not_byte_less: "NOT x < NOT y \<longleftrightarrow> y < x" for x y :: byte
  using unat_byte_less [of x] unat_byte_less [of y]
  by (auto simp: word_less_nat_alt unat_not_byte)

lemma unat_of_nat_byte: "k < 256 \<Longrightarrow> unat (of_nat k :: byte) = k"
  by (simp add: unat_of_nat)

lemma unat_marker: "k \<le> 8 \<Longrightarrow> unat (encMarker - of_nat k) = 255 - k"
proof -
  assume k: "k \<le> 8"
  then have "unat (of_nat k :: byte) = k" by (simp add: unat_of_nat_byte)
  moreover from this have "(of_nat k :: byte) \<le> 255" by (simp add: byte_le_255)
  ultimately show ?thesis by (simp add: encMarker_def unat_sub)
qed

lemma compareBytes_same_prefix [simp]: "compareBytes (zs @ xs) (zs @ ys) = compareBytes xs ys"
  by (induction zs) simp_all

lemma compareBytes_refl [simp]: "compareBytes xs xs = 0"
  by (induction xs) simp_all

lemma compareBytes_sym: "compareBytes ys xs = - compareBytes xs ys"
  by (induction xs ys rule: compareBytes.induct) auto

lemma compareBytes_map_not:
  "\<not> strict_prefix xs ys \<Longrightarrow> \<not> strict_prefix ys xs \<Longrightarrow>
   compareBytes (map NOT xs) (map NOT ys) = - compareBytes xs ys"
proof (induction xs ys rule: compareBytes.induct)
  case (4 x xs y ys)
  consider "x < y" | "y < x" | "x = y" by (rule linorder_cases)
  then show ?case
  proof cases
    case 1
    then have "\<not> y < x" by simp
    with 1 show ?thesis by (simp add: not_byte_less)
  next
    case 2
    then have "\<not> x < y" by simp
    with 2 show ?thesis by (simp add: not_byte_less)
  next
    case 3
    with 4 show ?thesis by simp
  qed
qed simp_all

lemma marker_val: "k < 8 \<Longrightarrow> unat (encMarker - of_nat (encGroupSize - k)) = 247 + k"
  using unat_marker [of "encGroupSize - k"] by (simp add: encGroupSize_def)

lemma pad_before_more:
  "k < 8 \<Longrightarrow> ys \<noteq> [] \<Longrightarrow> unat m \<le> 247 + k \<Longrightarrow>
   compareBytes (replicate (encGroupSize - k) 0 @ [m]) (enc_from k ys) = - 1"
proof (induction ys arbitrary: k)
  case Nil
  then show ?case by simp
next
  case (Cons y ys)
  have rep: "replicate (encGroupSize - k) (0::byte) = 0 # replicate (encGroupSize - Suc k) 0"
    using Cons.prems(1) by (simp add: encGroupSize_def Suc_diff_Suc flip: replicate_Suc)
  show ?case
  proof (cases "y = 0")
    case False
    then have "0 < y" by (simp add: word_greater_zero_iff)
    then show ?thesis by (simp add: rep)
  next
    case True
    show ?thesis
    proof (cases "Suc k = encGroupSize")
      case last: True
      from Cons.prems last have "unat m < unat encMarker"
        by (simp add: encGroupSize_def encMarker_def)
      then have "m < encMarker" by (simp add: word_less_nat_alt)
      with True last show ?thesis by (simp add: rep)
    next
      case more: False
      with Cons.prems have k: "Suc k < 8" by (simp add: encGroupSize_def)
      have "compareBytes (replicate (encGroupSize - Suc k) 0 @ [m]) (enc_from (Suc k) ys) = - 1"
      proof (cases "ys = []")
        case False
        with Cons.IH [of "Suc k"] k Cons.prems show ?thesis by simp
      next
        case True
        from k Cons.prems marker_val [of "Suc k"]
        have "m < encMarker - of_nat (encGroupSize - Suc k)"
          by (simp add: word_less_nat_alt)
        with True show ?thesis by simp
      qed
      with True more show ?thesis by (simp add: rep)
    qed
  qed
qed

lemma compareBytes_enc_end:
  assumes "k < 8"
  shows "compareBytes (enc_from k []) (enc_from k (y # ys)) = - 1"
proof -
  from assms have "unat (encMarker - of_nat (encGroupSize - k)) \<le> 247 + k"
    by (simp only: marker_val)
  from pad_before_more [OF assms _ this, of "y # ys"] show ?thesis by simp
qed

lemma compareBytes_enc_from:
  "k < 8 \<Longrightarrow> compareBytes (enc_from k a) (enc_from k b) = compareBytes a b"
proof (induction a arbitrary: b k)
  case Nil
  then show ?case
    by (cases b) (simp_all only: compareBytes_refl compareBytes.simps compareBytes_enc_end)
next
  case (Cons x xs)
  show ?case
  proof (cases b)
    case Nil
    have "compareBytes (enc_from k (x # xs)) (enc_from k []) = - compareBytes (enc_from k []) (enc_from k (x # xs))"
      by (rule compareBytes_sym)
    with Nil Cons.prems show ?thesis by (simp only: compareBytes_enc_end compareBytes.simps)
  next
    case b: (Cons y ys)
    show ?thesis
    proof (cases "Suc k = encGroupSize")
      case True
      with b Cons.IH [of 0 ys] show ?thesis by simp
    next
      case False
      with Cons.prems have "Suc k < 8" by (simp add: encGroupSize_def)
      with False b Cons.IH [of "Suc k" ys] show ?thesis by simp
    qed
  qed
qed

lemma compareBytes_enc: "compareBytes (enc a) (enc b) = compareBytes a b"
  by (simp add: enc_def compareBytes_enc_from)

section \<open>Properties of the decoder\<close>

lemma decodeBytes_loop_short:
  "len b < 9 \<Longrightarrow> decodeBytes_loop p reverse mem b data = (mem, Inl InsufficientBytes)"
  by (subst decodeBytes_loop.simps) (simp add: encGroupSize_def)

text \<open>One round of the loop on a group \<open>g\<close> with marker \<open>m\<close>.\<close>

lemma decodeBytes_loop_step:
  assumes "9 \<le> len b"
    and "mem1 = (if reverse then reverseBytes p mem (ptr b) 9 else mem)"
    and "take 9 (drop (ptr b) mem1) = g @ [m]" and "length g = 8"
    and "b1 = \<lparr>ptr = ptr b + 9, len = len b - 9\<rparr>"
  shows "decodeBytes_loop p reverse mem b data =
     (if encMarker - m > 8 then (mem1, Inl (InvalidMarker (g @ [m])))
      else if m \<noteq> encMarker then
        (if int (count_list (drop (unat (8 - (encMarker - m))) g) encPad) \<noteq> uint (encMarker - m)
         then (mem1, Inl (InvalidPadding (g @ [m])))
         else (mem1, Inr (b1, data @ take (unat (8 - (encMarker - m))) g)))
      else decodeBytes_loop p reverse mem1 b1 (data @ g))"
proof -
  have eq: "(if reverse then reverseBytes p mem (ptr b) (encGroupSize + 1) else mem) = mem1"
    using assms(2) by (simp add: encGroupSize_def)
  have gb: "take (encGroupSize + 1) (drop (ptr b) mem1) = g @ [m]"
    using assms(3) by (simp add: encGroupSize_def)
  have g1: "take encGroupSize (g @ [m]) = g" and g2: "(g @ [m]) ! encGroupSize = m"
    using assms(4) by (simp_all add: encGroupSize_def nth_append)
  have m: "m = encMarker \<Longrightarrow> take (unat (8 - (encMarker - m))) g = g"
    using assms(4) by simp
  have "decodeBytes_loop p reverse mem b data =
     (if len b < encGroupSize + 1 then (mem, Inl InsufficientBytes)
      else if encMarker - m > of_nat encGroupSize then (mem1, Inl (InvalidMarker (g @ [m])))
      else if m \<noteq> encMarker then
        (if int (count_list (drop (unat (of_nat encGroupSize - (encMarker - m))) g) encPad) \<noteq> uint (encMarker - m)
         then (mem1, Inl (InvalidPadding (g @ [m])))
         else (mem1, Inr (\<lparr>ptr = ptr b + (encGroupSize + 1), len = len b - (encGroupSize + 1)\<rparr>,
                 data @ take (unat (of_nat encGroupSize - (encMarker - m))) g)))
      else decodeBytes_loop p reverse mem1 \<lparr>ptr = ptr b + (encGroupSize + 1), len = len b - (encGroupSize + 1)\<rparr>
             (data @ take (unat (of_nat encGroupSize - (encMarker - m))) g))"
    by (subst decodeBytes_loop.simps) (simp only: Let_def eq gb g1 g2)
  also have "\<dots> =
     (if encMarker - m > 8 then (mem1, Inl (InvalidMarker (g @ [m])))
      else if m \<noteq> encMarker then
        (if int (count_list (drop (unat (8 - (encMarker - m))) g) encPad) \<noteq> uint (encMarker - m)
         then (mem1, Inl (InvalidPadding (g @ [m])))
         else (mem1, Inr (b1, data @ take (unat (8 - (encMarker - m))) g)))
      else decodeBytes_loop p reverse mem1 b1 (data @ g))"
    using assms(1,4,5) m by (simp add: encGroupSize_def)
  finally show ?thesis .
qed

lemma decodeBytes_loop_asc_mem:
  "\<not> reverse \<Longrightarrow> fst (decodeBytes_loop p reverse mem b data) = mem"
proof (induction p reverse mem b data rule: decodeBytes_loop.induct)
  case (1 p reverse mem b data)
  show ?case
    using "1.prems" "1.IH"
    by (subst decodeBytes_loop.simps) (simp add: Let_def)
qed

lemma length_view [simp]: "valid_span mem b \<Longrightarrow> length (view mem b) = len b"
  by (auto simp: view_def valid_span_def)

lemma take_group_view:
  "9 \<le> len b \<Longrightarrow> take 9 (drop (ptr b) mem) = take 9 (view mem b)"
  by (simp add: view_def min_def)

lemma view_advance:
  "9 \<le> len b \<Longrightarrow> view mem \<lparr>ptr = ptr b + 9, len = len b - 9\<rparr> = drop 9 (view mem b)"
  by (simp add: view_def drop_take add.commute)

lemma valid_span_advance:
  "valid_span mem b \<Longrightarrow> 9 \<le> len b \<Longrightarrow> valid_span mem \<lparr>ptr = ptr b + 9, len = len b - 9\<rparr>"
  by (simp add: valid_span_def)

text \<open>Facts on the pad count computed from a marker.\<close>

lemma pad_le_8: "\<not> 8 < pc \<Longrightarrow> unat pc \<le> 8" for pc :: byte
  by (simp add: word_less_nat_alt)

lemma unat_8_minus: "\<not> 8 < pc \<Longrightarrow> unat (8 - pc) = 8 - unat pc" for pc :: byte
  by (simp add: unat_sub word_le_nat_alt word_less_nat_alt)

lemma marker_neq: "0 < k \<Longrightarrow> k \<le> 8 \<Longrightarrow> encMarker - of_nat k \<noteq> encMarker"
proof
  assume k: "0 < k" "k \<le> 8" and "encMarker - of_nat k = encMarker"
  then have "unat (encMarker - of_nat k) = unat encMarker" by simp
  moreover have "unat (encMarker - of_nat k) = 255 - k" using k by (rule_tac unat_marker)
  ultimately show False using k by (simp add: encMarker_def)
qed

lemma count_list_replicate [simp]: "count_list (replicate k z) z = k"
  by (induction k) simp_all

lemma count_list_all:
  "count_list xs z = length xs \<Longrightarrow> xs = replicate (length xs) z"
proof (induction xs)
  case Nil
  then show ?case by simp
next
  case (Cons x xs)
  have "count_list xs z \<le> length xs" by (rule count_le_length)
  with Cons show ?case by (auto split: if_splits)
qed

lemma length_enc_full: "8 \<le> length d \<Longrightarrow> length (enc d) = 9 + length (enc (drop 8 d))"
  by (simp add: enc_full)

lemma length_enc_short: "length d < 8 \<Longrightarrow> length (enc d) = 9"
  by (simp add: enc_short)

lemma decode_enc_asc:
  "valid_span mem b \<Longrightarrow> view mem b = enc d @ t \<Longrightarrow>
   decodeBytes_loop p False mem b data =
     (mem, Inr (\<lparr>ptr = ptr b + length (enc d), len = len b - length (enc d)\<rparr>, data @ d))"
proof (induction d arbitrary: b data rule: length_induct)
  case (1 d)
  from "1.prems" have lenb: "len b = length (enc d) + length t"
    using length_view [of mem b] by simp
  show ?case
  proof (cases "8 \<le> length d")
    case True
    then have e: "enc d = take 8 d @ encMarker # enc (drop 8 d)" by (rule enc_full)
    with lenb have l9: "9 \<le> len b" using True by simp
    define b1 where "b1 = \<lparr>ptr = ptr b + 9, len = len b - 9\<rparr>"
    have grp: "take 9 (drop (ptr b) mem) = take 8 d @ [encMarker]"
      using True "1.prems"(2) e by (simp add: take_group_view [OF l9])
    have "decodeBytes_loop p False mem b data = decodeBytes_loop p False mem b1 (data @ take 8 d)"
      using decodeBytes_loop_step [OF l9, of mem False p mem "take 8 d" encMarker b1 data] grp True b1_def
      by simp
    moreover have "valid_span mem b1"
      unfolding b1_def using "1.prems"(1) l9 by (rule valid_span_advance)
    moreover have "view mem b1 = enc (drop 8 d) @ t"
      unfolding b1_def using "1.prems"(2) e True by (simp add: view_advance [OF l9])
    moreover have "length (drop 8 d) < length d" using True by simp
    ultimately have "decodeBytes_loop p False mem b data =
        (mem, Inr (\<lparr>ptr = ptr b1 + length (enc (drop 8 d)), len = len b1 - length (enc (drop 8 d))\<rparr>,
           (data @ take 8 d) @ drop 8 d))"
      using "1.IH" by simp
    then show ?thesis
      using True by (simp add: b1_def length_enc_full)
  next
    case False
    define k where "k = 8 - length d"
    with False have k: "0 < k" "k \<le> 8" "length d = 8 - k" by simp_all
    have e: "enc d = (d @ replicate k 0) @ [encMarker - of_nat k]"
      using False by (simp add: enc_short k_def)
    with lenb have l9: "9 \<le> len b" using k by simp
    have grp: "take 9 (drop (ptr b) mem) = (d @ replicate k 0) @ [encMarker - of_nat k]"
      using "1.prems"(2) e k by (simp add: take_group_view [OF l9])
    have pc: "encMarker - (encMarker - of_nat k) = (of_nat k :: byte)" by simp
    have uk: "unat (of_nat k :: byte) = k" using k by (simp add: unat_of_nat_byte)
    then have not8: "\<not> 8 < (of_nat k :: byte)" using k by (simp add: word_less_nat_alt)
    have r: "unat (8 - (of_nat k :: byte)) = length d"
      using unat_8_minus [OF not8] uk k by simp
    have uik: "uint (of_nat k :: byte) = int k"
      using uk by (metis uint_nat)
    have "decodeBytes_loop p False mem b data =
        (mem, Inr (\<lparr>ptr = ptr b + 9, len = len b - 9\<rparr>, data @ d))"
      using decodeBytes_loop_step [OF l9, of mem False p mem "d @ replicate k 0" "encMarker - of_nat k"
          "\<lparr>ptr = ptr b + 9, len = len b - 9\<rparr>" data] grp k marker_neq [of k]
      by (simp add: pc not8 r uik encPad_def)
    then show ?thesis
      using False by (simp add: length_enc_short)
  qed
qed

lemma take_9_split: "9 \<le> length v \<Longrightarrow> take 9 v = take 8 v @ [v ! 8]"
  using take_Suc_conv_app_nth [of 8 v] by simp

lemma split_9: "9 \<le> length v \<Longrightarrow> v = take 8 v @ v ! 8 # drop 9 v"
  using id_take_nth_drop [of 8 v] by simp

lemma decode_asc_canonical:
  "valid_span mem b \<Longrightarrow> decodeBytes_loop p False mem b data = (mem', Inr (b', data')) \<Longrightarrow>
   \<exists>d. data' = data @ d \<and> view mem b = enc d @ view mem b'
       \<and> b' = \<lparr>ptr = ptr b + length (enc d), len = len b - length (enc d)\<rparr>"
proof (induction "len b" arbitrary: b data rule: less_induct)
  case less
  show ?case
  proof (cases "len b < 9")
    case True
    with less.prems(2) show ?thesis by (simp add: decodeBytes_loop_short)
  next
    case False
    then have l9: "9 \<le> len b" by simp
    define v where "v = view mem b"
    define g where "g = take 8 v"
    define m where "m = v ! 8"
    define pc where "pc = encMarker - m"
    define b1 where "b1 = \<lparr>ptr = ptr b + 9, len = len b - 9\<rparr>"
    have lv: "length v = len b" using less.prems(1) by (simp add: v_def)
    then have lg: "length g = 8" using l9 by (simp add: g_def)
    have grp: "take 9 (drop (ptr b) mem) = g @ [m]"
      using l9 lv by (simp add: take_group_view v_def [symmetric] take_9_split g_def m_def)
    have v: "v = g @ m # view mem b1"
      using split_9 [of v] l9 lv by (simp add: g_def m_def b1_def view_advance v_def)
    have vb1: "valid_span mem b1"
      unfolding b1_def using less.prems(1) l9 by (rule valid_span_advance)
    note step = decodeBytes_loop_step [OF l9, of mem False p mem g m b1 data, folded pc_def]
    show ?thesis
    proof (cases "8 < pc")
      case True
      with step grp lg b1_def less.prems(2) show ?thesis by simp
    next
      case pc8: False
      show ?thesis
      proof (cases "m = encMarker")
        case True
        then have "pc = 0" by (simp add: pc_def)
        with step grp lg b1_def True have "decodeBytes_loop p False mem b data
            = decodeBytes_loop p False mem b1 (data @ g)" by simp
        with less.prems(2) have rec: "decodeBytes_loop p False mem b1 (data @ g) = (mem', Inr (b', data'))"
          by simp
        have "len b1 < len b" using l9 by (simp add: b1_def)
        from less.hyps [OF this vb1 rec]
        obtain d' where d': "data' = (data @ g) @ d'" "view mem b1 = enc d' @ view mem b'"
          "b' = \<lparr>ptr = ptr b1 + length (enc d'), len = len b1 - length (enc d')\<rparr>"
          by blast
        have e: "enc (g @ d') = g @ encMarker # enc d'"
          using enc_full [of "g @ d'"] lg by simp
        have "data' = data @ (g @ d')" using d'(1) by simp
        moreover have "view mem b = enc (g @ d') @ view mem b'"
          using v d'(2) True e by (simp add: v_def)
        moreover have "b' = \<lparr>ptr = ptr b + length (enc (g @ d')), len = len b - length (enc (g @ d'))\<rparr>"
          using d'(3) e lg by (simp add: b1_def)
        ultimately show ?thesis by blast
      next
        case False
        define r where "r = unat (8 - pc)"
        have upc: "unat pc \<le> 8" using pc8 by (rule pad_le_8)
        have r: "r = 8 - unat pc" unfolding r_def using pc8 by (rule unat_8_minus)
        have "pc \<noteq> 0" using False by (simp add: pc_def)
        then have pcpos: "0 < unat pc" by (simp add: unat_gt_0)
        have res: "decodeBytes_loop p False mem b data =
            (if int (count_list (drop r g) encPad) \<noteq> uint pc
             then (mem, Inl (InvalidPadding (g @ [m])))
             else (mem, Inr (b1, data @ take r g)))"
          using step grp lg b1_def False pc8 by (simp add: r_def)
        with less.prems(2) have cnt: "int (count_list (drop r g) encPad) = uint pc"
          and b': "b' = b1" and data': "data' = data @ take r g"
          by (auto split: if_splits)
        from cnt have "int (count_list (drop r g) encPad) = int (unat pc)"
          by (simp only: uint_nat)
        then have "count_list (drop r g) encPad = unat pc"
          by (simp only: of_nat_eq_iff)
        moreover have "length (drop r g) = unat pc" using lg r upc by simp
        ultimately have dz: "drop r g = replicate (unat pc) 0"
          using count_list_all [of "drop r g" encPad] by (simp add: encPad_def)
        have g: "g = take r g @ replicate (unat pc) 0"
          by (simp only: dz [symmetric] append_take_drop_id)
        have lt: "length (take r g) = r" using lg r by simp
        have r8: "r < 8" using r pcpos by simp
        have k8: "8 - r = unat pc" using r upc by simp
        have mpc: "encMarker - pc = m" by (simp add: pc_def)
        have "enc (take r g) = take r g @ replicate (8 - length (take r g)) 0
            @ [encMarker - of_nat (8 - length (take r g))]"
          by (rule enc_short) (simp only: lt r8)
        moreover have "(of_nat (unat pc) :: byte) = pc" by simp
        ultimately have "enc (take r g) = take r g @ replicate (unat pc) 0 @ [m]"
          by (simp only: lt k8 mpc)
        then have "enc (take r g) = g @ [m]" using g by simp
        then have "view mem b = enc (take r g) @ view mem b'"
          using v b' by (simp add: v_def)
        moreover have "length (enc (take r g)) = 9" using lt r8 by (simp add: length_enc_short)
        then have "b' = \<lparr>ptr = ptr b + length (enc (take r g)), len = len b - length (enc (take r g))\<rparr>"
          using b' by (simp add: b1_def)
        ultimately show ?thesis using data' by blast
      qed
    qed
  qed
qed

lemma enc_prefix_free:
  assumes "enc a @ t = enc b @ u"
  shows "a = b \<and> t = u"
proof -
  define buf where "buf = enc a @ t"
  have v: "valid_span buf (whole buf)" and w: "view buf (whole buf) = buf"
    by (simp_all add: valid_span_def whole_def view_def)
  have "decodeBytes_loop \<lparr>GOARCH = [], ptr64 = False, bigEndian = False\<rparr> False buf (whole buf) [] =
      (buf, Inr (\<lparr>ptr = ptr (whole buf) + length (enc a), len = len (whole buf) - length (enc a)\<rparr>, [] @ a))"
    using v w by (intro decode_enc_asc) (simp_all add: buf_def)
  moreover have "decodeBytes_loop \<lparr>GOARCH = [], ptr64 = False, bigEndian = False\<rparr> False buf (whole buf) [] =
      (buf, Inr (\<lparr>ptr = ptr (whole buf) + length (enc b), len = len (whole buf) - length (enc b)\<rparr>, [] @ b))"
    using v w assms by (intro decode_enc_asc) (simp_all add: buf_def)
  ultimately have "a = b" by simp
  with assms show ?thesis by simp
qed

lemma enc_not_strict_prefix: "\<not> strict_prefix (enc a) (enc b)"
proof
  assume "strict_prefix (enc a) (enc b)"
  then obtain zs where zs: "enc b = enc a @ zs" "zs \<noteq> []"
    by (auto simp: strict_prefix_def prefix_def)
  then have "enc a @ zs = enc b @ []" by simp
  then have "zs = []" by (blast dest: enc_prefix_free)
  with zs show False by simp
qed

lemma compareBytes_desc_enc:
  "compareBytes (map NOT (enc a)) (map NOT (enc b)) = - compareBytes a b"
  by (simp add: compareBytes_map_not enc_not_strict_prefix compareBytes_enc)

section \<open>Properties of the descending decoder\<close>

lemma desc_groups_read_short: "length v < 9 \<Longrightarrow> desc_groups_read v = 0"
  by (subst desc_groups_read.simps) (simp add: encGroupSize_def)

lemma desc_groups_read_more:
  "9 \<le> length v \<Longrightarrow> NOT (v ! 8) = encMarker \<Longrightarrow> desc_groups_read v = Suc (desc_groups_read (drop 9 v))"
  by (subst desc_groups_read.simps) (simp add: encGroupSize_def)

lemma desc_groups_read_last:
  "9 \<le> length v \<Longrightarrow> NOT (v ! 8) \<noteq> encMarker \<Longrightarrow> desc_groups_read v = 1"
  by (subst desc_groups_read.simps) (simp add: encGroupSize_def)

lemma take_drop_complement_range:
  "n \<le> k \<Longrightarrow> off + k \<le> length mem \<Longrightarrow>
   take n (drop off (complement_range mem off k)) = map NOT (take n (drop off mem))"
  by (auto simp: complement_range_def take_map min_def)

lemma view_complement_range_before:
  "off + k \<le> ptr s \<Longrightarrow> view (complement_range mem off k) s = view mem s"
proof -
  assume a: "off + k \<le> ptr s"
  have "drop (ptr s) (complement_range mem off k) = drop (ptr s) mem"
  proof (rule nth_equalityI)
    show "length (drop (ptr s) (complement_range mem off k)) = length (drop (ptr s) mem)" by simp
  next
    fix i assume "i < length (drop (ptr s) (complement_range mem off k))"
    then have "ptr s + i < length mem" by simp
    with a show "drop (ptr s) (complement_range mem off k) ! i = drop (ptr s) mem ! i"
      by (simp add: nth_complement_range)
  qed
  then show ?thesis by (simp add: view_def)
qed

lemma decode_desc_sim:
  "valid_span mem b \<Longrightarrow>
   decodeBytes_loop p True mem b data =
     (complement_range mem (ptr b) (9 * desc_groups_read (view mem b)),
      snd (decodeBytes_loop p False (complement_range mem (ptr b) (len b)) b data))"
proof (induction "len b" arbitrary: mem b data rule: less_induct)
  case less
  show ?case
  proof (cases "len b < 9")
    case True
    then have "length (view mem b) < 9" using less.prems by simp
    with True show ?thesis
      by (simp add: decodeBytes_loop_short desc_groups_read_short)
  next
    case False
    then have l9: "9 \<le> len b" by simp
    define v where "v = view mem b"
    define g where "g = map NOT (take 8 v)"
    define m where "m = NOT (v ! 8)"
    define pc where "pc = encMarker - m"
    define b1 where "b1 = \<lparr>ptr = ptr b + 9, len = len b - 9\<rparr>"
    define mem1 where "mem1 = complement_range mem (ptr b) 9"
    define M where "M = complement_range mem (ptr b) (len b)"
    have lv: "length v = len b" using less.prems by (simp add: v_def)
    have lg: "length g = 8" using l9 lv by (simp add: g_def)
    have in9: "ptr b + 9 \<le> length mem" and inl: "ptr b + len b \<le> length mem"
      using less.prems l9 by (simp_all add: valid_span_def)
    have G: "map NOT (take 9 (drop (ptr b) mem)) = g @ [m]"
      using l9 lv by (simp add: take_group_view v_def [symmetric] take_9_split g_def m_def)
    have grp1: "take 9 (drop (ptr b) mem1) = g @ [m]"
      unfolding mem1_def using in9 G by (simp add: take_drop_complement_range)
    have grpM: "take 9 (drop (ptr b) M) = g @ [m]"
      unfolding M_def using l9 inl G by (simp add: take_drop_complement_range)
    have rev: "mem1 = (if True then reverseBytes p mem (ptr b) 9 else mem)"
      using in9 by (simp add: mem1_def reverseBytes_range)
    have fwd: "M = (if False then reverseBytes p M (ptr b) 9 else M)" by simp
    note stepT = decodeBytes_loop_step [OF l9 rev grp1 lg b1_def, of data, folded pc_def]
    note stepF = decodeBytes_loop_step [OF l9 fwd grpM lg b1_def, of data, folded pc_def]
    show ?thesis
    proof (cases "m = encMarker")
      case True
      then have pc0: "pc = 0" by (simp add: pc_def)
      have vb1: "valid_span mem1 b1"
        using less.prems l9 by (simp add: valid_span_def b1_def mem1_def)
      have lb1: "len b1 < len b" using l9 by (simp add: b1_def)
      have "view mem1 b1 = view mem b1"
        by (simp add: mem1_def b1_def view_complement_range_before)
      then have vw: "view mem1 b1 = drop 9 v"
        using l9 by (simp add: b1_def view_advance v_def)
      have M1: "complement_range mem1 (ptr b1) (len b1) = M"
        using l9 by (simp add: mem1_def b1_def M_def complement_range_add)
      have k: "desc_groups_read v = Suc (desc_groups_read (drop 9 v))"
        using l9 lv True by (simp add: desc_groups_read_more m_def)
      have "decodeBytes_loop p True mem b data = decodeBytes_loop p True mem1 b1 (data @ g)"
        using stepT True pc0 by simp
      also have "\<dots> = (complement_range mem1 (ptr b1) (9 * desc_groups_read (drop 9 v)),
          snd (decodeBytes_loop p False M b1 (data @ g)))"
        using less.hyps [OF lb1 vb1, of "data @ g"] by (simp add: vw M1)
      also have "complement_range mem1 (ptr b1) (9 * desc_groups_read (drop 9 v))
          = complement_range mem (ptr b) (9 * desc_groups_read v)"
        by (simp add: mem1_def b1_def complement_range_add k)
      also have "decodeBytes_loop p False M b1 (data @ g) = decodeBytes_loop p False M b data"
        using stepF True pc0 by simp
      finally show ?thesis by (simp add: v_def M_def)
    next
      case False
      then have k: "desc_groups_read v = 1"
        using l9 lv by (simp add: desc_groups_read_last m_def)
      have m1: "complement_range mem (ptr b) (9 * desc_groups_read (view mem b)) = mem1"
        using k by (simp add: v_def mem1_def)
      show ?thesis
        unfolding m1 M_def [symmetric] using stepT stepF False by simp
    qed
  qed
qed

lemma desc_step:
  assumes "valid_span mem b" and l9: "9 \<le> len b"
    and g: "g = map NOT (take 8 (view mem b))" and m: "m = NOT (view mem b ! 8)"
    and mem1: "mem1 = complement_range mem (ptr b) 9"
    and b1: "b1 = \<lparr>ptr = ptr b + 9, len = len b - 9\<rparr>"
  shows "decodeBytes_loop p True mem b data =
     (if encMarker - m > 8 then (mem1, Inl (InvalidMarker (g @ [m])))
      else if m \<noteq> encMarker then
        (if int (count_list (drop (unat (8 - (encMarker - m))) g) encPad) \<noteq> uint (encMarker - m)
         then (mem1, Inl (InvalidPadding (g @ [m])))
         else (mem1, Inr (b1, data @ take (unat (8 - (encMarker - m))) g)))
      else decodeBytes_loop p True mem1 b1 (data @ g))"
proof -
  have lv: "length (view mem b) = len b" using assms(1) by simp
  have lg: "length g = 8" using l9 lv by (simp add: g)
  have in9: "ptr b + 9 \<le> length mem"
    using assms(1) l9 by (simp add: valid_span_def)
  have G: "map NOT (take 9 (drop (ptr b) mem)) = g @ [m]"
    using l9 lv by (simp add: take_group_view take_9_split g m)
  have grp1: "take 9 (drop (ptr b) mem1) = g @ [m]"
    unfolding mem1 using in9 G by (simp add: take_drop_complement_range)
  have rev: "mem1 = (if True then reverseBytes p mem (ptr b) 9 else mem)"
    using in9 by (simp add: mem1 reverseBytes_range)
  show ?thesis
    by (rule decodeBytes_loop_step [OF l9 rev grp1 lg b1])
qed

lemma desc_groups_read_enc: "9 * desc_groups_read (map NOT (enc d) @ t) = length (enc d)"
proof (induction d rule: length_induct)
  case (1 d)
  show ?case
  proof (cases "8 \<le> length d")
    case True
    then have e: "enc d = take 8 d @ encMarker # enc (drop 8 d)" by (rule enc_full)
    have "desc_groups_read (map NOT (enc d) @ t)
        = Suc (desc_groups_read (drop 9 (map NOT (enc d) @ t)))"
      using True by (intro desc_groups_read_more) (simp_all add: e nth_append)
    also have "drop 9 (map NOT (enc d) @ t) = map NOT (enc (drop 8 d)) @ t"
      using True by (simp add: e)
    finally show ?thesis
      using "1.IH" True by (simp add: length_enc_full)
  next
    case False
    define k where "k = 8 - length d"
    with False have k: "0 < k" "k \<le> 8" "length d = 8 - k" by simp_all
    have e: "enc d = (d @ replicate k 0) @ [encMarker - of_nat k]"
      using False by (simp add: enc_short k_def)
    have le: "length (d @ replicate k 0) = 8" using k by simp
    have "enc d ! 8 = encMarker - of_nat k"
      by (simp only: e le [symmetric] nth_append_length)
    moreover have "length (enc d) = 9" using False by (rule_tac length_enc_short) simp
    ultimately have "(map NOT (enc d) @ t) ! 8 = NOT (encMarker - of_nat k)"
      by (simp add: nth_append)
    moreover have "encMarker - of_nat k \<noteq> encMarker" using k by (intro marker_neq)
    ultimately have "desc_groups_read (map NOT (enc d) @ t) = 1"
      using False by (intro desc_groups_read_last) (simp_all add: length_enc_short)
    then show ?thesis using False by (simp add: length_enc_short)
  qed
qed

lemma map_not_not [simp]: "map (NOT \<circ> NOT) xs = xs" for xs :: "byte list"
  by (simp add: comp_def)

lemma complement_range_all: "complement_range buf 0 (length buf) = map NOT buf"
  by (simp add: complement_range_def)

lemma complement_range_prefix:
  "complement_range (xs @ ys) 0 (length xs) = map NOT xs @ ys"
  by (simp add: complement_range_def)

lemma decode_enc_desc:
  fixes d t :: "byte list"
  defines "buf \<equiv> map NOT (enc d) @ t"
  shows "decodeBytes_loop p True buf (whole buf) [] =
     (enc d @ t, Inr (\<lparr>ptr = length (enc d), len = length t\<rparr>, d))"
proof -
  have v: "valid_span buf (whole buf)" and w: "view buf (whole buf) = buf"
    by (simp_all add: valid_span_def whole_def view_def)
  have M: "complement_range buf (ptr (whole buf)) (len (whole buf)) = enc d @ map NOT t"
    by (simp add: whole_def complement_range_all) (simp add: buf_def)
  have "decodeBytes_loop p False (enc d @ map NOT t) (whole buf) [] =
      (enc d @ map NOT t,
       Inr (\<lparr>ptr = ptr (whole buf) + length (enc d), len = len (whole buf) - length (enc d)\<rparr>, [] @ d))"
    by (rule decode_enc_asc) (simp_all add: valid_span_def whole_def view_def buf_def)
  moreover have "complement_range buf (ptr (whole buf)) (9 * desc_groups_read (view buf (whole buf)))
      = enc d @ t"
    using complement_range_prefix [of "map NOT (enc d)" t]
    by (simp add: w) (simp add: buf_def desc_groups_read_enc whole_def)
  ultimately show ?thesis
    using decode_desc_sim [OF v, of p "[]"] by (simp add: M) (simp add: whole_def buf_def)
qed

lemma desc_groups_read_pos: "9 \<le> length v \<Longrightarrow> 0 < desc_groups_read v"
  by (subst desc_groups_read.simps) (simp add: encGroupSize_def)

lemma desc_groups_read_le: "9 * desc_groups_read v \<le> length v"
proof (induction v rule: desc_groups_read.induct)
  case (1 v)
  show ?case
  proof (cases "length v < 9")
    case True
    then show ?thesis by (simp add: desc_groups_read_short)
  next
    case False
    show ?thesis
    proof (cases "NOT (v ! 8) = encMarker")
      case True
      with False "1.IH" show ?thesis
        by (simp add: desc_groups_read_more encGroupSize_def)
    next
      case m: False
      with False show ?thesis by (simp add: desc_groups_read_last)
    qed
  qed
qed

lemma desc_success_first_marker:
  assumes "valid_span mem b" and "snd (decodeBytes_loop p True mem b data) = Inr x"
  shows "9 \<le> len b \<and> \<not> 8 < encMarker - NOT (view mem b ! 8)"
proof (cases "len b < 9")
  case True
  with assms(2) show ?thesis by (simp add: decodeBytes_loop_short)
next
  case False
  then have l9: "9 \<le> len b" by simp
  from desc_step [OF assms(1) l9 refl refl refl refl, of p data] assms(2) l9
  show ?thesis by (auto split: if_splits)
qed

lemma desc_failure_first_marker:
  assumes "valid_span mem b" and "9 \<le> len b" and "8 < encMarker - NOT (view mem b ! 8)"
  shows "snd (decodeBytes_loop p True mem b data)
     = Inl (InvalidMarker (map NOT (take 9 (view mem b))))"
  using desc_step [OF assms(1,2) refl refl refl refl, of p data] assms
  by (simp add: take_9_split)

lemma marker_flip: "\<not> 8 < encMarker - NOT x \<Longrightarrow> 8 < encMarker - x" for x :: byte
proof -
  assume a: "\<not> 8 < encMarker - NOT x"
  have "encMarker - NOT x = x" by (simp add: encMarker_def not_eq_complement)
  with a have x: "unat x \<le> 8" by (simp add: word_less_nat_alt)
  have "unat (encMarker - x) = 255 - unat x"
    by (simp add: encMarker_def unat_sub byte_le_255)
  with x show ?thesis by (simp add: word_less_nat_alt)
qed

lemma not_byte_neq: "NOT x \<noteq> x" for x :: byte
proof
  assume "NOT x = x"
  then have "bit (NOT x) 0 = bit x 0" by simp
  then show False by (simp add: bit_not_iff)
qed

lemma desc_decode_twice_fails:
  assumes "decodeBytes_loop p True buf (whole buf) [] = (buf', Inr x)"
  shows "buf' \<noteq> buf \<and>
     snd (decodeBytes_loop p True buf' (whole buf') []) = Inl (InvalidMarker (take 9 buf))"
proof -
  have v: "valid_span buf (whole buf)" and w: "view buf (whole buf) = buf"
    by (simp_all add: valid_span_def whole_def view_def)
  from desc_success_first_marker [OF v, of p "[]" x] assms
  have l9: "9 \<le> length buf" and mk: "\<not> 8 < encMarker - NOT (buf ! 8)"
    by (simp_all add: w) (simp_all add: whole_def)
  define k where "k = desc_groups_read buf"
  have kpos: "0 < k" using l9 by (simp add: k_def desc_groups_read_pos)
  have kle: "9 * k \<le> length buf" by (simp add: k_def desc_groups_read_le)
  have buf': "buf' = complement_range buf 0 (9 * k)"
    using decode_desc_sim [OF v, of p "[]"] assms by (simp add: w k_def) (simp add: whole_def)
  then have len: "length buf' = length buf" by simp
  have t9: "take 9 buf' = map NOT (take 9 buf)"
    using take_drop_complement_range [of 9 "9 * k" 0 buf] kpos kle by (simp add: buf')
  have n8: "buf' ! 8 = NOT (buf ! 8)"
    using l9 kpos by (simp add: buf' nth_complement_range)
  have v': "valid_span buf' (whole buf')" and w': "view buf' (whole buf') = buf'"
    by (simp_all add: valid_span_def whole_def view_def)
  have "buf' ! 8 \<noteq> buf ! 8" using n8 by (simp add: not_byte_neq)
  then have "buf' \<noteq> buf" by auto
  moreover have c1: "9 \<le> len (whole buf')"
    using l9 len by (simp add: whole_def)
  have c2: "8 < encMarker - NOT (view buf' (whole buf') ! 8)"
    using marker_flip [OF mk] by (simp add: w' n8)
  have "snd (decodeBytes_loop p True buf' (whole buf') [])
      = Inl (InvalidMarker (map NOT (take 9 (view buf' (whole buf')))))"
    by (rule desc_failure_first_marker [OF v' c1 c2])
  ultimately show ?thesis by (simp add: w' t9 comp_def)
qed

lemma desc_step_more:
  assumes "valid_span mem b" and "9 \<le> len b" and "NOT (view mem b ! 8) = encMarker"
  shows "decodeBytes_loop p True mem b data =
     decodeBytes_loop p True (complement_range mem (ptr b) 9) \<lparr>ptr = ptr b + 9, len = len b - 9\<rparr>
       (data @ map NOT (take 8 (view mem b)))"
  using desc_step [OF assms(1,2) refl refl refl refl, of p data] assms(3) by simp

lemma desc_step_last:
  assumes "valid_span mem b" and "9 \<le> len b" and "NOT (view mem b ! 8) \<noteq> encMarker"
  shows "\<exists>res. decodeBytes_loop p True mem b data = (complement_range mem (ptr b) 9, res)
     \<and> (res = Inl (InvalidMarker (map NOT (take 9 (view mem b))))
        \<or> res = Inl (InvalidPadding (map NOT (take 9 (view mem b))))
        \<or> (\<exists>d. res = Inr (\<lparr>ptr = ptr b + 9, len = len b - 9\<rparr>, d)))"
  using desc_step [OF assms(1,2) refl refl refl refl, of p data] assms
  by (simp add: take_9_split)

lemma desc_after_more:
  assumes "valid_span mem b" and "9 \<le> len b"
  shows "valid_span (complement_range mem (ptr b) 9) \<lparr>ptr = ptr b + 9, len = len b - 9\<rparr>"
    and "view (complement_range mem (ptr b) 9) \<lparr>ptr = ptr b + 9, len = len b - 9\<rparr> = drop 9 (view mem b)"
proof -
  show "valid_span (complement_range mem (ptr b) 9) \<lparr>ptr = ptr b + 9, len = len b - 9\<rparr>"
    using assms by (simp add: valid_span_def)
  have "view (complement_range mem (ptr b) 9) \<lparr>ptr = ptr b + 9, len = len b - 9\<rparr>
      = view mem \<lparr>ptr = ptr b + 9, len = len b - 9\<rparr>"
    by (simp add: view_complement_range_before)
  then show "view (complement_range mem (ptr b) 9) \<lparr>ptr = ptr b + 9, len = len b - 9\<rparr> = drop 9 (view mem b)"
    using assms(2) by (simp add: view_advance)
qed

lemma desc_success_consumed:
  "valid_span mem b \<Longrightarrow> snd (decodeBytes_loop p True mem b data) = Inr (r, d) \<Longrightarrow>
   ptr r = ptr b + 9 * desc_groups_read (view mem b)"
proof (induction "len b" arbitrary: mem b data rule: less_induct)
  case less
  show ?case
  proof (cases "len b < 9")
    case True
    with less.prems(2) show ?thesis by (simp add: decodeBytes_loop_short)
  next
    case False
    then have l9: "9 \<le> len b" by simp
    then have lv: "9 \<le> length (view mem b)" using less.prems(1) by simp
    show ?thesis
    proof (cases "NOT (view mem b ! 8) = encMarker")
      case True
      note after = desc_after_more [OF less.prems(1) l9]
      have "snd (decodeBytes_loop p True (complement_range mem (ptr b) 9)
            \<lparr>ptr = ptr b + 9, len = len b - 9\<rparr> (data @ map NOT (take 8 (view mem b)))) = Inr (r, d)"
        using less.prems(2) by (simp add: desc_step_more [OF less.prems(1) l9 True])
      from less.hyps [OF _ after(1) this] l9
      show ?thesis
        by (simp add: after(2) desc_groups_read_more [OF lv True])
    next
      case False
      from desc_step_last [OF less.prems(1) l9 False, of p data] less.prems(2)
      show ?thesis
        by (auto simp: desc_groups_read_last [OF lv False])
    qed
  qed
qed

lemma desc_insufficient_consumed:
  "valid_span mem b \<Longrightarrow> snd (decodeBytes_loop p True mem b data) = Inl InsufficientBytes \<Longrightarrow>
   desc_groups_read (view mem b) = len b div 9"
proof (induction "len b" arbitrary: mem b data rule: less_induct)
  case less
  show ?case
  proof (cases "len b < 9")
    case True
    then have "length (view mem b) < 9" using less.prems(1) by simp
    with True show ?thesis by (simp add: desc_groups_read_short)
  next
    case False
    then have l9: "9 \<le> len b" by simp
    then have lv: "9 \<le> length (view mem b)" using less.prems(1) by simp
    show ?thesis
    proof (cases "NOT (view mem b ! 8) = encMarker")
      case True
      note after = desc_after_more [OF less.prems(1) l9]
      have "snd (decodeBytes_loop p True (complement_range mem (ptr b) 9)
            \<lparr>ptr = ptr b + 9, len = len b - 9\<rparr> (data @ map NOT (take 8 (view mem b)))) = Inl InsufficientBytes"
        using less.prems(2) by (simp add: desc_step_more [OF less.prems(1) l9 True])
      from less.hyps [OF _ after(1) this] l9
      have "desc_groups_read (drop 9 (view mem b)) = (len b - 9) div 9"
        by (simp add: after(2))
      then show ?thesis
        using l9 by (simp add: desc_groups_read_more [OF lv True] le_div_geq)
    next
      case False
      from desc_step_last [OF less.prems(1) l9 False, of p data] less.prems(2)
      show ?thesis by auto
    qed
  qed
qed

lemma desc_invalid_group:
  "valid_span mem b \<Longrightarrow>
   snd (decodeBytes_loop p True mem b data) = Inl (InvalidMarker g)
     \<or> snd (decodeBytes_loop p True mem b data) = Inl (InvalidPadding g) \<Longrightarrow>
   0 < desc_groups_read (view mem b)
   \<and> take 9 (drop (ptr b + 9 * (desc_groups_read (view mem b) - 1))
        (fst (decodeBytes_loop p True mem b data))) = g"
proof (induction "len b" arbitrary: mem b data rule: less_induct)
  case less
  show ?case
  proof (cases "len b < 9")
    case True
    with less.prems(2) show ?thesis by (simp add: decodeBytes_loop_short)
  next
    case False
    then have l9: "9 \<le> len b" by simp
    then have lv: "9 \<le> length (view mem b)" using less.prems(1) by simp
    have in9: "ptr b + 9 \<le> length mem" using less.prems(1) l9 by (simp add: valid_span_def)
    show ?thesis
    proof (cases "NOT (view mem b ! 8) = encMarker")
      case True
      note after = desc_after_more [OF less.prems(1) l9]
      note more = desc_step_more [OF less.prems(1) l9 True, of p data]
      have "snd (decodeBytes_loop p True (complement_range mem (ptr b) 9)
            \<lparr>ptr = ptr b + 9, len = len b - 9\<rparr> (data @ map NOT (take 8 (view mem b)))) = Inl (InvalidMarker g)
          \<or> snd (decodeBytes_loop p True (complement_range mem (ptr b) 9)
            \<lparr>ptr = ptr b + 9, len = len b - 9\<rparr> (data @ map NOT (take 8 (view mem b)))) = Inl (InvalidPadding g)"
        using less.prems(2) by (simp add: more)
      from less.hyps [OF _ after(1) this] l9
      have pos: "0 < desc_groups_read (drop 9 (view mem b))"
        and grp: "take 9 (drop (ptr b + 9 + 9 * (desc_groups_read (drop 9 (view mem b)) - 1))
            (fst (decodeBytes_loop p True mem b data))) = g"
        by (simp_all add: after(2) more)
      from pos have "9 * (Suc (desc_groups_read (drop 9 (view mem b))) - 1)
          = 9 + 9 * (desc_groups_read (drop 9 (view mem b)) - 1)"
        by (cases "desc_groups_read (drop 9 (view mem b))") simp_all
      with grp show ?thesis
        by (simp add: desc_groups_read_more [OF lv True] add.assoc)
    next
      case False
      have "take 9 (drop (ptr b) (complement_range mem (ptr b) 9)) = map NOT (take 9 (view mem b))"
        using in9 l9 by (simp add: take_drop_complement_range take_group_view)
      with desc_step_last [OF less.prems(1) l9 False, of p data] less.prems(2)
      show ?thesis
        by (auto simp: desc_groups_read_last [OF lv False])
    qed
  qed
qed

lemma decode_strict_prefix:
  "valid_span mem b \<Longrightarrow> strict_prefix (view mem b) (enc d) \<Longrightarrow>
   decodeBytes_loop p False mem b data = (mem, Inl InsufficientBytes)"
proof (induction d arbitrary: b data rule: length_induct)
  case (1 d)
  show ?case
  proof (cases "len b < 9")
    case True
    then show ?thesis by (rule decodeBytes_loop_short)
  next
    case False
    then have l9: "9 \<le> len b" by simp
    define v where "v = view mem b"
    have lv: "length v = len b" using "1.prems"(1) by (simp add: v_def)
    from "1.prems"(2) obtain zs where zs: "enc d = v @ zs" "zs \<noteq> []"
      by (auto simp: strict_prefix_def prefix_def v_def)
    have "length (enc d) = length v + length zs" by (simp add: zs(1))
    moreover have "length zs \<noteq> 0" using zs(2) by simp
    ultimately have "9 < length (enc d)" using l9 lv by arith
    then have d8: "8 \<le> length d"
      using length_enc_short [of d] by (cases "8 \<le> length d") simp_all
    then have e: "enc d = take 8 d @ encMarker # enc (drop 8 d)" by (rule enc_full)
    define b1 where "b1 = \<lparr>ptr = ptr b + 9, len = len b - 9\<rparr>"
    have "take 9 v = take 9 (enc d)" using zs l9 lv by simp
    then have grp: "take 9 (drop (ptr b) mem) = take 8 d @ [encMarker]"
      using d8 by (simp add: take_group_view [OF l9] v_def [symmetric] e)
    have "drop 9 (enc d) = drop 9 v @ zs" using zs l9 lv by simp
    then have "enc (drop 8 d) = drop 9 v @ zs" using d8 by (simp add: e)
    then have sp: "strict_prefix (view mem b1) (enc (drop 8 d))"
      using zs(2) l9 by (simp add: b1_def view_advance v_def [symmetric] strict_prefix_def)
    have vb1: "valid_span mem b1"
      unfolding b1_def using "1.prems"(1) l9 by (rule valid_span_advance)
    have "decodeBytes_loop p False mem b data = decodeBytes_loop p False mem b1 (data @ take 8 d)"
      using decodeBytes_loop_step [OF l9, of mem False p mem "take 8 d" encMarker b1 data] grp d8 b1_def
      by simp
    also have "\<dots> = (mem, Inl InsufficientBytes)"
    proof -
      have "length (drop 8 d) < length d" using d8 by simp
      with "1.IH" vb1 sp show ?thesis by blast
    qed
    finally show ?thesis .
  qed
qed

section \<open>Further properties used below\<close>

lemma complement_range_changes:
  assumes "0 < k" and "9 \<le> length buf"
  shows "complement_range buf 0 (9 * k) \<noteq> buf"
proof
  assume eq: "complement_range buf 0 (9 * k) = buf"
  have "complement_range buf 0 (9 * k) ! 8 = NOT (buf ! 8)"
    using assms by (simp add: nth_complement_range)
  with eq have "NOT (buf ! 8) = buf ! 8" by simp
  then show False by (simp only: not_byte_neq)
qed

lemma DecodeBytesDesc_sim:
  "DecodeBytesDesc p buf (whole buf) =
     (complement_range buf 0 (9 * desc_groups_read buf),
      snd (DecodeBytes p (map NOT buf) (whole buf)))"
proof -
  have v: "valid_span buf (whole buf)" and w: "view buf (whole buf) = buf"
    by (simp_all add: valid_span_def whole_def view_def)
  from decode_desc_sim [OF v, of p "[]"] show ?thesis
    by (simp add: w DecodeBytesDesc_def DecodeBytes_def decodeBytes_def)
      (simp add: whole_def complement_range_all)
qed

lemma DecodeCompactBytes_negative:
  "decodeVarint b = Inr (b1, n) \<Longrightarrow> sint n < 0 \<Longrightarrow> DecodeCompactBytes decodeVarint b = Panic"
  by (simp add: DecodeCompactBytes_def)

lemma DecodeCompactBytes_in_range:
  "decodeVarint b = Inr (b1, n) \<Longrightarrow> 0 \<le> sint n \<Longrightarrow> sint n \<le> int (length b1) \<Longrightarrow>
   DecodeCompactBytes decodeVarint b = Return (Inr (drop (nat (sint n)) b1, take (nat (sint n)) b1))"
  by (simp add: DecodeCompactBytes_def)

lemma reallocBytes_grows:
  "int (cap b) < n \<Longrightarrow> reallocBytes b n = \<lparr>elems = elems b, cap = nat (int (length (elems b)) + n)\<rparr>"
  by (simp add: reallocBytes_def)

section \<open>The claims\<close>

text \<open>
  C1. Ascending group encoding preserves order exactly: for all byte strings \<open>a\<close> and
  \<open>b\<close>, comparing \<open>EncodeBytes([], a)\<close> with \<open>EncodeBytes([], b)\<close> bytewise gives the
  result of comparing \<open>a\<close> with \<open>b\<close>, equality included.
\<close>

theorem EncodeBytes_preserves_order:
  "compareBytes (elems (EncodeBytes nil_slice a)) (elems (EncodeBytes nil_slice b)) = compareBytes a b"
  by (simp add: elems_EncodeBytes nil_slice_def compareBytes_enc)

text \<open>
  C2. Round trip with framing: decoding the buffer \<open>EncodeBytes([], d)\<close> followed by any
  trailing bytes \<open>t\<close> succeeds, leaves the buffer as it was, and returns the payload
  \<open>d\<close> and as remainder the slice that starts after the encoding and holds exactly \<open>t\<close>.
\<close>

theorem DecodeBytes_EncodeBytes:
  "DecodeBytes p (elems (EncodeBytes nil_slice d) @ t) (whole (elems (EncodeBytes nil_slice d) @ t))
     = (elems (EncodeBytes nil_slice d) @ t,
        Inr (\<lparr>ptr = length (elems (EncodeBytes nil_slice d)), len = length t\<rparr>, d))
   \<and> view (elems (EncodeBytes nil_slice d) @ t)
         \<lparr>ptr = length (elems (EncodeBytes nil_slice d)), len = length t\<rparr> = t"
proof -
  have e: "elems (EncodeBytes nil_slice d) = enc d"
    by (simp add: elems_EncodeBytes nil_slice_def)
  have "valid_span (enc d @ t) (whole (enc d @ t))"
    by (simp add: valid_span_def whole_def)
  moreover have "view (enc d @ t) (whole (enc d @ t)) = enc d @ t"
    by (simp add: view_def whole_def)
  ultimately have "decodeBytes_loop p False (enc d @ t) (whole (enc d @ t)) []
      = (enc d @ t, Inr (\<lparr>ptr = ptr (whole (enc d @ t)) + length (enc d),
                          len = len (whole (enc d @ t)) - length (enc d)\<rparr>, [] @ d))"
    by (rule decode_enc_asc)
  then show ?thesis
    by (simp add: e DecodeBytes_def decodeBytes_def whole_def view_def)
qed

text \<open>
  C3. Descending encoding reverses order exactly: for all byte strings \<open>a\<close> and \<open>b\<close>,
  comparing \<open>a\<close> with \<open>b\<close> gives the negation of comparing \<open>EncodeBytesDesc([], a)\<close> with
  \<open>EncodeBytesDesc([], b)\<close> bytewise.
\<close>

theorem EncodeBytesDesc_reverses_order:
  "compareBytes a b
     = - compareBytes (elems (EncodeBytesDesc p nil_slice a)) (elems (EncodeBytesDesc p nil_slice b))"
  by (simp add: elems_EncodeBytesDesc nil_slice_def compareBytes_desc_enc)

text \<open>
  C4. Descending round trip: decoding \<open>EncodeBytesDesc([], d)\<close> with \<open>DecodeBytesDesc\<close>
  succeeds with payload \<open>d\<close> and an empty remainder, the slice of length zero at the
  end of the buffer. The buffer is left holding the ascending encoding of \<open>d\<close>.
\<close>

theorem DecodeBytesDesc_EncodeBytesDesc:
  "DecodeBytesDesc p (elems (EncodeBytesDesc p nil_slice d)) (whole (elems (EncodeBytesDesc p nil_slice d)))
     = (elems (EncodeBytes nil_slice d),
        Inr (\<lparr>ptr = length (elems (EncodeBytesDesc p nil_slice d)), len = 0\<rparr>, d))
   \<and> view (elems (EncodeBytes nil_slice d))
         \<lparr>ptr = length (elems (EncodeBytesDesc p nil_slice d)), len = 0\<rparr> = []"
  using decode_enc_desc [of p d "[]"]
  by (simp add: elems_EncodeBytesDesc elems_EncodeBytes nil_slice_def DecodeBytesDesc_def
      decodeBytes_def view_def)

text \<open>
  C5. \<open>DecodeCompactBytes\<close> is claimed to return an error for a negative decoded
  length. On the one-byte buffer \<open>0x01\<close>, the varint of \<open>-1\<close>, the length check
  passes and the allocation of \<open>-1\<close> bytes panics.
\<close>

theorem DecodeCompactBytes_negative_length_panics:
  "DecodeVarint [0x01] = Inr ([], - 1) \<and> DecodeCompactBytes DecodeVarint [0x01] = Panic"
  by (simp add: DecodeCompactBytes_def DecodeVarint_def Varint_def)

text \<open>
  C6. \<open>reallocBytes\<close> is claimed to return a buffer with room for \<open>n\<close> more bytes.
  For a full buffer of nine bytes and \<open>n = 9\<close> the capacity test \<open>cap(b) < n\<close> fails,
  the buffer comes back as it is, and its capacity is below \<open>len(b) + n\<close>.
\<close>

theorem reallocBytes_keeps_full_buffer:
  "reallocBytes \<lparr>elems = replicate 9 0, cap = 9\<rparr> 9 = \<lparr>elems = replicate 9 0, cap = 9\<rparr>
   \<and> cap (reallocBytes \<lparr>elems = replicate 9 0, cap = 9\<rparr> 9)
       < length (elems \<lparr>elems = replicate 9 0, cap = 9\<rparr>) + 9"
  by (simp add: reallocBytes_def)

text \<open>
  C7. \<open>EncodeBytesDesc(b, d)\<close> keeps the bytes already in \<open>b\<close> and appends the bytewise
  complement of \<open>EncodeBytes([], d)\<close>: the first \<open>len(b)\<close> bytes of the result are those
  of \<open>b\<close>, the bytes after them are the complemented ascending encoding.
\<close>

theorem EncodeBytesDesc_complements_appended:
  "elems (EncodeBytesDesc p b d) = elems b @ map NOT (elems (EncodeBytes nil_slice d))
   \<and> take (length (elems b)) (elems (EncodeBytesDesc p b d)) = elems b
   \<and> drop (length (elems b)) (elems (EncodeBytesDesc p b d)) = map NOT (elems (EncodeBytes nil_slice d))"
  by (simp add: elems_EncodeBytesDesc elems_EncodeBytes nil_slice_def)

text \<open>
  C8. On every byte range inside the memory, whatever its length is modulo the word
  size, the word-at-a-time path and the byte-at-a-time path leave the same memory:
  every byte of the range is complemented and every byte outside it is kept.
\<close>

theorem fastReverseBytes_safeReverseBytes:
  "off + n \<le> length mem \<Longrightarrow>
   fastReverseBytes p mem off n = safeReverseBytes mem off n
   \<and> safeReverseBytes mem off n = take off mem @ map NOT (take n (drop off mem)) @ drop (off + n) mem"
  by (simp add: fastReverseBytes_range safeReverseBytes_range complement_range_def)

theorem fastReverseBytes_safeReverseBytes_witness:
  "2 + 11 \<le> length [0, 1, 2, 3, 4, 5, 6, 7, 8, 9, 10, 11, 12, 13 :: byte]
   \<and> fastReverseBytes \<lparr>GOARCH = ''amd64'', ptr64 = True, bigEndian = False\<rparr>
        [0, 1, 2, 3, 4, 5, 6, 7, 8, 9, 10, 11, 12, 13] 2 11
      = safeReverseBytes [0, 1, 2, 3, 4, 5, 6, 7, 8, 9, 10, 11, 12, 13] 2 11
   \<and> safeReverseBytes [0, 1, 2, 3, 4, 5, 6, 7, 8, 9, 10, 11, 12, 13] 2 11
      = [0, 1, 253, 252, 251, 250, 249, 248, 247, 246, 245, 244, 243, 13]"
proof -
  have h: "2 + 11 \<le> length [0, 1, 2, 3, 4, 5, 6, 7, 8, 9, 10, 11, 12, 13 :: byte]"
    by simp
  show ?thesis
    using h fastReverseBytes_safeReverseBytes [OF h, of "\<lparr>GOARCH = ''amd64'', ptr64 = True, bigEndian = False\<rparr>"]
    by simp
qed

text \<open>
  C9. \<open>DecodeBytesDesc\<close> writes to the caller's buffer, \<open>DecodeBytes\<close> does not. With \<open>k\<close>
  the number of groups the descending decoder reads from \<open>buf\<close>, it leaves the first
  \<open>9 * k\<close> bytes complemented and the rest as they were, whether it succeeds or fails;
  a buffer of at least nine bytes is therefore always changed. When it fails for lack
  of bytes, every complete group has been overwritten; when it fails on a marker or
  on padding, the group quoted in the error is the last one overwritten; when it
  succeeds, the overwritten groups are exactly the consumed ones, up to the start of
  the remainder, and decoding the buffer a second time fails on the first marker. A
  descending encoding followed by any bytes is left as the ascending encoding followed
  by the same bytes.
\<close>

theorem DecodeBytesDesc_overwrites_buffer:
  fixes p :: platform and buf d t :: "byte list"
  defines "out \<equiv> DecodeBytesDesc p buf (whole buf)"
    and "k \<equiv> desc_groups_read buf"
    and "denc \<equiv> elems (EncodeBytesDesc p nil_slice d)"
  shows "fst (DecodeBytes p buf (whole buf)) = buf
   \<and> fst out = map NOT (take (9 * k) buf) @ drop (9 * k) buf
   \<and> (9 \<le> length buf \<longrightarrow> fst out \<noteq> buf)
   \<and> (snd out = Inl InsufficientBytes \<longrightarrow> k = length buf div 9)
   \<and> (\<forall>g. snd out = Inl (InvalidMarker g) \<or> snd out = Inl (InvalidPadding g) \<longrightarrow>
          0 < k \<and> take 9 (drop (9 * (k - 1)) (fst out)) = g)
   \<and> (\<forall>r x. snd out = Inr (r, x) \<longrightarrow>
          ptr r = 9 * k
          \<and> snd (DecodeBytesDesc p (fst out) (whole (fst out))) = Inl (InvalidMarker (take 9 buf)))
   \<and> fst (DecodeBytesDesc p (denc @ t) (whole (denc @ t))) = elems (EncodeBytes nil_slice d) @ t"
proof -
  have v: "valid_span buf (whole buf)" and w: "view buf (whole buf) = buf"
    and pw: "ptr (whole buf) = 0" and lw: "len (whole buf) = length buf"
    by (simp_all add: valid_span_def whole_def view_def)
  have out: "out = decodeBytes_loop p True buf (whole buf) []"
    by (simp add: out_def DecodeBytesDesc_def decodeBytes_def)
  have fst_out: "fst out = complement_range buf 0 (9 * k)"
    by (simp add: out_def k_def DecodeBytesDesc_sim)
  have c1: "fst (DecodeBytes p buf (whole buf)) = buf"
    by (simp add: DecodeBytes_def decodeBytes_def decodeBytes_loop_asc_mem)
  have c2: "fst out = map NOT (take (9 * k) buf) @ drop (9 * k) buf"
    by (simp add: fst_out complement_range_def)
  have c3: "9 \<le> length buf \<longrightarrow> fst out \<noteq> buf"
    by (simp add: fst_out k_def complement_range_changes desc_groups_read_pos)
  have c4: "snd out = Inl InsufficientBytes \<longrightarrow> k = length buf div 9"
    using desc_insufficient_consumed [OF v, of p "[]"] by (simp add: out k_def w lw)
  have c5: "\<forall>g. snd out = Inl (InvalidMarker g) \<or> snd out = Inl (InvalidPadding g) \<longrightarrow>
      0 < k \<and> take 9 (drop (9 * (k - 1)) (fst out)) = g"
    using desc_invalid_group [OF v, of p "[]"] by (simp add: out k_def w pw)
  have c6: "\<forall>r x. snd out = Inr (r, x) \<longrightarrow>
      ptr r = 9 * k
      \<and> snd (DecodeBytesDesc p (fst out) (whole (fst out))) = Inl (InvalidMarker (take 9 buf))"
  proof (intro allI impI)
    fix r x
    assume s: "snd out = Inr (r, x)"
    then have "decodeBytes_loop p True buf (whole buf) [] = (fst out, Inr (r, x))"
      by (simp add: out [symmetric] prod_eq_iff)
    from desc_decode_twice_fails [OF this]
    have "snd (DecodeBytesDesc p (fst out) (whole (fst out))) = Inl (InvalidMarker (take 9 buf))"
      by (simp add: DecodeBytesDesc_def decodeBytes_def)
    moreover have "ptr r = 9 * k"
      using desc_success_consumed [OF v, of p "[]" r x] s by (simp add: out k_def w pw)
    ultimately show "ptr r = 9 * k
      \<and> snd (DecodeBytesDesc p (fst out) (whole (fst out))) = Inl (InvalidMarker (take 9 buf))"
      by simp
  qed
  have c7: "fst (DecodeBytesDesc p (denc @ t) (whole (denc @ t))) = elems (EncodeBytes nil_slice d) @ t"
    using decode_enc_desc [of p d t]
    by (simp add: denc_def elems_EncodeBytesDesc elems_EncodeBytes nil_slice_def DecodeBytesDesc_def
        decodeBytes_def)
  from c1 c2 c3 c4 c5 c6 c7 show ?thesis by blast
qed

theorem DecodeBytesDesc_overwrites_buffer_witness:
  "9 \<le> length [254, 253, 252, 255, 255, 255, 255, 255, 5, 7 :: byte]
   \<and> snd (DecodeBytesDesc \<lparr>GOARCH = ''amd64'', ptr64 = True, bigEndian = False\<rparr>
          [254, 253, 252, 255, 255, 255, 255, 255, 5, 7]
          (whole [254, 253, 252, 255, 255, 255, 255, 255, 5, 7]))
       = Inr (\<lparr>ptr = 9, len = 1\<rparr>, [1, 2, 3])
   \<and> fst (DecodeBytesDesc \<lparr>GOARCH = ''amd64'', ptr64 = True, bigEndian = False\<rparr>
          [254, 253, 252, 255, 255, 255, 255, 255, 5, 7]
          (whole [254, 253, 252, 255, 255, 255, 255, 255, 5, 7]))
       = [1, 2, 3, 0, 0, 0, 0, 0, 250, 7]
   \<and> 9 * desc_groups_read [254, 253, 252, 255, 255, 255, 255, 255, 5, 7] = 9
   \<and> snd (DecodeBytesDesc \<lparr>GOARCH = ''amd64'', ptr64 = True, bigEndian = False\<rparr>
          [1, 2, 3, 0, 0, 0, 0, 0, 250, 7] (whole [1, 2, 3, 0, 0, 0, 0, 0, 250, 7]))
       = Inl (InvalidMarker [254, 253, 252, 255, 255, 255, 255, 255, 5])
   \<and> snd (DecodeBytesDesc \<lparr>GOARCH = ''amd64'', ptr64 = True, bigEndian = False\<rparr>
          [1, 2, 3, 4, 5, 6, 7, 8, 0, 9, 9] (whole [1, 2, 3, 4, 5, 6, 7, 8, 0, 9, 9]))
       = Inl InsufficientBytes
   \<and> desc_groups_read [1, 2, 3, 4, 5, 6, 7, 8, 0, 9, 9] = length [1, 2, 3, 4, 5, 6, 7, 8, 0, 9, 9 :: byte] div 9
   \<and> snd (DecodeBytesDesc \<lparr>GOARCH = ''amd64'', ptr64 = True, bigEndian = False\<rparr>
          [0, 0, 0, 0, 0, 0, 0, 0, 247] (whole [0, 0, 0, 0, 0, 0, 0, 0, 247]))
       = Inl (InvalidMarker [255, 255, 255, 255, 255, 255, 255, 255, 8])
   \<and> take 9 (drop (9 * (desc_groups_read [0, 0, 0, 0, 0, 0, 0, 0, 247] - 1))
        (fst (DecodeBytesDesc \<lparr>GOARCH = ''amd64'', ptr64 = True, bigEndian = False\<rparr>
          [0, 0, 0, 0, 0, 0, 0, 0, 247] (whole [0, 0, 0, 0, 0, 0, 0, 0, 247]))))
       = [255, 255, 255, 255, 255, 255, 255, 255, 8]"
proof -
  let ?p = "\<lparr>GOARCH = ''amd64'', ptr64 = True, bigEndian = False\<rparr>"
  let ?s = "[254, 253, 252, 255, 255, 255, 255, 255, 5, 7 :: byte]"
  let ?i = "[1, 2, 3, 4, 5, 6, 7, 8, 0, 9, 9 :: byte]"
  let ?m = "[0, 0, 0, 0, 0, 0, 0, 0, 247 :: byte]"
  have l: "9 \<le> length ?s" by simp
  have hs: "snd (DecodeBytesDesc ?p ?s (whole ?s)) = Inr (\<lparr>ptr = 9, len = 1\<rparr>, [1, 2, 3])"
    by code_simp
  have hi: "snd (DecodeBytesDesc ?p ?i (whole ?i)) = Inl InsufficientBytes"
    by code_simp
  have hm: "snd (DecodeBytesDesc ?p ?m (whole ?m))
      = Inl (InvalidMarker [255, 255, 255, 255, 255, 255, 255, 255, 8])"
    by code_simp
  have ks: "9 * desc_groups_read ?s = 9" by code_simp
  have enc: "elems (EncodeBytesDesc ?p nil_slice [1, 2, 3]) @ [7] = ?s" by code_simp
  note ts = DecodeBytesDesc_overwrites_buffer [where p = ?p and buf = ?s and d = "[1, 2, 3]" and t = "[7]"]
  note ti = DecodeBytesDesc_overwrites_buffer [where p = ?p and buf = ?i]
  note tm = DecodeBytesDesc_overwrites_buffer [where p = ?p and buf = ?m]
  have fs: "fst (DecodeBytesDesc ?p ?s (whole ?s)) = [1, 2, 3, 0, 0, 0, 0, 0, 250, 7]"
    using ts ks by simp
  have "snd (DecodeBytesDesc ?p (fst (DecodeBytesDesc ?p ?s (whole ?s)))
      (whole (fst (DecodeBytesDesc ?p ?s (whole ?s))))) = Inl (InvalidMarker (take 9 ?s))"
    using ts hs by blast
  then have twice: "snd (DecodeBytesDesc ?p [1, 2, 3, 0, 0, 0, 0, 0, 250, 7]
      (whole [1, 2, 3, 0, 0, 0, 0, 0, 250, 7])) = Inl (InvalidMarker [254, 253, 252, 255, 255, 255, 255, 255, 5])"
    by (simp add: fs)
  have ki: "desc_groups_read ?i = length ?i div 9"
    using ti hi by blast
  have km: "take 9 (drop (9 * (desc_groups_read ?m - 1)) (fst (DecodeBytesDesc ?p ?m (whole ?m))))
      = [255, 255, 255, 255, 255, 255, 255, 255, 8]"
    using tm hm by blast
  from l hs fs ks twice hi ki hm km show ?thesis by blast
qed

text \<open>
  C10. Ascending decoding accepts only what the encoder produces: when \<open>DecodeBytes\<close>
  succeeds on a buffer with payload \<open>d\<close>, the buffer is unchanged and is
  \<open>EncodeBytes([], d)\<close> followed by the remainder; and every strict prefix of an
  encoding fails to decode, for lack of bytes.
\<close>

theorem DecodeBytes_accepts_only_encodings:
  "(DecodeBytes p buf (whole buf) = (buf', Inr (r, d)) \<longrightarrow>
      buf' = buf \<and> buf = elems (EncodeBytes nil_slice d) @ view buf r)
   \<and> (strict_prefix pre (elems (EncodeBytes nil_slice e)) \<longrightarrow>
      snd (DecodeBytes p pre (whole pre)) = Inl InsufficientBytes)"
proof -
  have canonical: "buf' = buf \<and> buf = elems (EncodeBytes nil_slice d) @ view buf r"
    if a: "DecodeBytes p buf (whole buf) = (buf', Inr (r, d))"
  proof -
    have v: "valid_span buf (whole buf)" and w: "view buf (whole buf) = buf"
      by (simp_all add: valid_span_def whole_def view_def)
    from a have l: "decodeBytes_loop p False buf (whole buf) [] = (buf', Inr (r, d))"
      by (simp add: DecodeBytes_def decodeBytes_def)
    have "fst (decodeBytes_loop p False buf (whole buf) []) = buf"
      by (simp add: decodeBytes_loop_asc_mem)
    with l have "buf' = buf" by simp
    moreover from decode_asc_canonical [OF v l] w
    have "buf = elems (EncodeBytes nil_slice d) @ view buf r"
      by (auto simp: elems_EncodeBytes nil_slice_def)
    ultimately show ?thesis ..
  qed
  have truncated: "snd (DecodeBytes p pre (whole pre)) = Inl InsufficientBytes"
    if "strict_prefix pre (elems (EncodeBytes nil_slice e))"
  proof -
    from that have "strict_prefix (view pre (whole pre)) (enc e)"
      by (simp add: elems_EncodeBytes nil_slice_def view_def whole_def)
    moreover have "valid_span pre (whole pre)"
      by (simp add: valid_span_def whole_def)
    ultimately have "decodeBytes_loop p False pre (whole pre) [] = (pre, Inl InsufficientBytes)"
      by (intro decode_strict_prefix)
    then show ?thesis
      by (simp add: DecodeBytes_def decodeBytes_def)
  qed
  from canonical truncated show ?thesis by blast
qed

theorem DecodeBytes_accepts_only_encodings_witness:
  "DecodeBytes \<lparr>GOARCH = ''amd64'', ptr64 = True, bigEndian = False\<rparr>
      [1, 2, 3, 0, 0, 0, 0, 0, 250, 7] (whole [1, 2, 3, 0, 0, 0, 0, 0, 250, 7])
     = ([1, 2, 3, 0, 0, 0, 0, 0, 250, 7], Inr (\<lparr>ptr = 9, len = 1\<rparr>, [1, 2, 3]))
   \<and> [1, 2, 3, 0, 0, 0, 0, 0, 250, 7]
       = elems (EncodeBytes nil_slice [1, 2, 3]) @ view [1, 2, 3, 0, 0, 0, 0, 0, 250, 7] \<lparr>ptr = 9, len = 1\<rparr>
   \<and> strict_prefix [1, 2, 3, 4, 5, 6, 7, 8, 255] (elems (EncodeBytes nil_slice [1, 2, 3, 4, 5, 6, 7, 8]))
   \<and> snd (DecodeBytes \<lparr>GOARCH = ''amd64'', ptr64 = True, bigEndian = False\<rparr>
          [1, 2, 3, 4, 5, 6, 7, 8, 255] (whole [1, 2, 3, 4, 5, 6, 7, 8, 255]))
       = Inl InsufficientBytes"
proof -
  let ?p = "\<lparr>GOARCH = ''amd64'', ptr64 = True, bigEndian = False\<rparr>"
  let ?b = "[1, 2, 3, 0, 0, 0, 0, 0, 250, 7 :: byte]"
  let ?pre = "[1, 2, 3, 4, 5, 6, 7, 8, 255 :: byte]"
  have h1: "DecodeBytes ?p ?b (whole ?b) = (?b, Inr (\<lparr>ptr = 9, len = 1\<rparr>, [1, 2, 3]))"
    by code_simp
  have h2: "strict_prefix ?pre (elems (EncodeBytes nil_slice [1, 2, 3, 4, 5, 6, 7, 8]))"
    by code_simp
  from DecodeBytes_accepts_only_encodings
    [where p = ?p and buf = ?b and buf' = ?b and r = "\<lparr>ptr = 9, len = 1\<rparr>" and d = "[1, 2, 3]"
       and pre = ?pre and e = "[1, 2, 3, 4, 5, 6, 7, 8]"]
    h1 h2
  show ?thesis by blast
qed

end
